theory Spec2Isabelle
  imports Complex_Main "HOL-Library.AList" "HOL-Library.Product_Lexorder"
begin

section \<open>Python values shared by the whole development\<close>

text \<open>
  Exceptions of the Python source are values: a fallible operation returns
  \<open>error + 'a\<close> with \<open>Inl\<close> for the exception.  A recursion that Python does
  not bound (\<open>find_root\<close> follows parent links) is a partial function on
  \<open>option\<close>, where \<open>None\<close> stands for not returning.
\<close>

datatype error =
  KeyError | IndexError | AssertionError | TypeError | ZeroDivisionError
  | ValueError | NetworkXError

text \<open>
  A Python \<open>dict\<close> whose iteration order matters is an association list in
  insertion order with pairwise distinct keys: \<open>map_of\<close> reads a key,
  \<open>AList.update\<close> overwrites the value in place or appends a new key at
  the end, \<open>AList.delete\<close> removes a key.
\<close>

definition dict_append :: "('k \<times> 'v list) list \<Rightarrow> 'k \<Rightarrow> 'v \<Rightarrow> ('k \<times> 'v list) list" where
  \<comment> \<open>\<open>if k not in d.keys(): d[k] = []\<close> followed by \<open>d[k].append(v)\<close>\<close>
  "dict_append d k v =
     (case map_of d k of
        None \<Rightarrow> AList.update k [v] d
      | Some vs \<Rightarrow> AList.update k (vs @ [v]) d)"

section \<open>\<open>dbarf/utils/union_find.py\<close>\<close>

record UnionFind =
  max_num_per_set :: "int option"
  ranks :: "nat list"
  parents :: "nat list"
  nodes :: "int list"
  node_mapper :: "int \<rightharpoonup> nat"
  component_size :: "nat \<rightharpoonup> nat"

definition uf_init :: "nat \<Rightarrow> int option \<Rightarrow> UnionFind" where
  \<comment> \<open>\<open>UnionFind.__init__(size, max_num_per_set)\<close>\<close>
  "uf_init sz cap =
     \<lparr> max_num_per_set = cap,
       ranks = replicate sz 0,
       parents = [0..<sz],
       nodes = map int [0..<sz],
       node_mapper = (\<lambda>x. if 0 \<le> x \<and> x < int sz then Some (nat x) else None),
       component_size = (\<lambda>i. if i < sz then Some 1 else None) \<rparr>"

partial_function (option) find_root :: "UnionFind \<Rightarrow> int \<Rightarrow> (error + UnionFind \<times> nat) option" where
  "find_root s x =
     (case node_mapper s x of
        None \<Rightarrow> Some (Inl KeyError)
      | Some idx \<Rightarrow>
          if length (parents s) \<le> idx then Some (Inl IndexError)
          else if parents s ! idx = idx then Some (Inr (s, idx))
          else if length (nodes s) \<le> parents s ! idx then Some (Inl IndexError)
          else Option.bind (find_root s (nodes s ! (parents s ! idx)))
                 (\<lambda>res. case res of
                    Inl e \<Rightarrow> Some (Inl e)
                  | Inr (s', r) \<Rightarrow>
                      if length (parents s') \<le> idx then Some (Inl IndexError)
                      else Some (Inr (s'\<lparr>parents := (parents s')[idx := r]\<rparr>, r))))"

definition merge_roots :: "UnionFind \<Rightarrow> nat \<Rightarrow> nat \<Rightarrow> error + UnionFind" where
  \<comment> \<open>the union-by-rank tail of \<open>union\<close>, lines 45 to 52, on two distinct roots\<close>
  "merge_roots s x y =
     (if length (ranks s) \<le> x \<or> length (ranks s) \<le> y then Inl IndexError
      else if ranks s ! x < ranks s ! y then
        (case (component_size s y, component_size s x) of
           (Some cy, Some cx) \<Rightarrow>
             if length (parents s) \<le> x then Inl IndexError
             else Inr (s\<lparr>component_size := (component_size s)(y \<mapsto> cy + cx),
                         parents := (parents s)[x := y]\<rparr>)
         | _ \<Rightarrow> Inl KeyError)
      else
        (case (component_size s x, component_size s y) of
           (Some cx, Some cy) \<Rightarrow>
             if length (parents s) \<le> y then Inl IndexError
             else Inr (s\<lparr>component_size := (component_size s)(x \<mapsto> cx + cy),
                         parents := (parents s)[y := x],
                         ranks := (if ranks s ! x = ranks s ! y
                                   then (ranks s)[x := ranks s ! x + 1] else ranks s)\<rparr>)
         | _ \<Rightarrow> Inl KeyError))"

definition union_roots :: "UnionFind \<Rightarrow> nat \<Rightarrow> nat \<Rightarrow> error + UnionFind" where
  \<comment> \<open>the body of \<open>union\<close> after the two \<open>find_root\<close> calls, lines 35 to 52\<close>
  "union_roots s x y =
     (if x = y then Inr s
      else case max_num_per_set s of
        None \<Rightarrow> merge_roots s x y
      | Some m \<Rightarrow>
          (case (component_size s x, component_size s y) of
             (Some cx, Some cy) \<Rightarrow>
               if int cx + int cy > m then Inr s else merge_roots s x y
           | _ \<Rightarrow> Inl KeyError))"

definition uf_union :: "UnionFind \<Rightarrow> int \<Rightarrow> int \<Rightarrow> (error + UnionFind) option" where
  \<comment> \<open>\<open>UnionFind.union(x, y)\<close>\<close>
  "uf_union s x y =
     Option.bind (find_root s x) (\<lambda>r1. case r1 of
        Inl e \<Rightarrow> Some (Inl e)
      | Inr (s1, rx) \<Rightarrow>
          Option.bind (find_root s1 y) (\<lambda>r2. case r2 of
             Inl e \<Rightarrow> Some (Inl e)
           | Inr (s2, ry) \<Rightarrow> Some (union_roots s2 rx ry)))"

fun validate_collect ::
  "UnionFind \<Rightarrow> int list \<Rightarrow> (nat \<times> int list) list \<Rightarrow> (error + UnionFind \<times> (nat \<times> int list) list) option" where
  \<comment> \<open>the first loop of \<open>validate\<close>: group the node ids by \<open>find_root\<close>\<close>
  "validate_collect s [] union_set = Some (Inr (s, union_set))"
| "validate_collect s (node_id # rest) union_set =
     Option.bind (find_root s node_id) (\<lambda>res. case res of
        Inl e \<Rightarrow> Some (Inl e)
      | Inr (s', root_id) \<Rightarrow> validate_collect s' rest (dict_append union_set root_id node_id))"

fun validate_check :: "int option \<Rightarrow> (nat \<times> int list) list \<Rightarrow> error option" where
  \<comment> \<open>the second loop of \<open>validate\<close>: one assertion per key; comparing an
      \<open>int\<close> with \<open>None\<close> is a \<open>TypeError\<close>\<close>
  "validate_check cap [] = None"
| "validate_check cap ((key, members) # rest) =
     (case cap of
        None \<Rightarrow> Some TypeError
      | Some m \<Rightarrow>
          if int (length members) \<le> m then validate_check cap rest
          else Some AssertionError)"

definition validate :: "UnionFind \<Rightarrow> (error + UnionFind) option" where
  "validate s =
     Option.bind (validate_collect s (nodes s) []) (\<lambda>res. case res of
        Inl e \<Rightarrow> Some (Inl e)
      | Inr (s', union_set) \<Rightarrow>
          (case validate_check (max_num_per_set s') union_set of
             None \<Rightarrow> Some (Inr s')
           | Some e \<Rightarrow> Some (Inl e)))"

fun union_all :: "UnionFind \<Rightarrow> (int \<times> int) list \<Rightarrow> (error + UnionFind) option" where
  \<comment> \<open>a finite sequence of \<open>union\<close> calls; the first exception ends it\<close>
  "union_all s [] = Some (Inr s)"
| "union_all s ((x, y) # rest) =
     Option.bind (uf_union s x y) (\<lambda>res. case res of
        Inl e \<Rightarrow> Some (Inl e)
      | Inr s' \<Rightarrow> union_all s' rest)"

definition root_of :: "UnionFind \<Rightarrow> int \<Rightarrow> nat option" where
  \<comment> \<open>the value \<open>find_root(x)\<close> returns, when it returns one\<close>
  "root_of s x = (case find_root s x of Some (Inr (s', r)) \<Rightarrow> Some r | _ \<Rightarrow> None)"

definition component :: "UnionFind \<Rightarrow> int \<Rightarrow> int list" where
  \<comment> \<open>the node ids that \<open>find_root\<close> sends to the root of \<open>x\<close>\<close>
  "component s x = filter (\<lambda>z. root_of s z = root_of s x) (nodes s)"




subsection \<open>Invariants of the union-find structure\<close>

text \<open>
  \<open>forest\<close>: every parent is an index and ranks grow strictly along parent
  links.  \<open>rep\<close> follows the parent links to the root without changing anything; the
  rank condition is its termination argument.
\<close>

definition forest :: "nat list \<Rightarrow> nat list \<Rightarrow> bool" where
  "forest ps rk \<longleftrightarrow>
     length rk = length ps \<and>
     (\<forall>i<length ps. ps ! i < length ps \<and> (ps ! i \<noteq> i \<longrightarrow> rk ! i < rk ! (ps ! i)))"

function rep :: "nat list \<Rightarrow> nat list \<Rightarrow> nat \<Rightarrow> nat" where
  "rep ps rk i =
     (if i < length ps \<and> ps ! i < length ps \<and> length rk = length ps \<and> rk ! i < rk ! (ps ! i)
      then rep ps rk (ps ! i) else i)"
  by pat_completeness auto

termination
proof (relation "measure (\<lambda>(ps, rk, i). Max (set rk) - rk ! i)")
  show "wf (measure (\<lambda>(ps, rk, i). Max (set rk) - rk ! i))" by simp
next
  fix ps rk :: "nat list" and i :: nat
  assume a: "i < length ps \<and> ps ! i < length ps \<and> length rk = length ps \<and> rk ! i < rk ! (ps ! i)"
  then have "rk ! (ps ! i) \<in> set rk" by simp
  then have "rk ! (ps ! i) \<le> Max (set rk)" by simp
  with a have "Max (set rk) - rk ! (ps ! i) < Max (set rk) - rk ! i" by linarith
  then show "((ps, rk, ps ! i), (ps, rk, i)) \<in> measure (\<lambda>(ps, rk, i). Max (set rk) - rk ! i)"
    by simp
qed

declare rep.simps [simp del]

definition uf_inv :: "UnionFind \<Rightarrow> bool" where
  "uf_inv s \<longleftrightarrow>
     forest (parents s) (ranks s) \<and>
     length (nodes s) = length (parents s) \<and> distinct (nodes s) \<and>
     (\<forall>i<length (parents s). node_mapper s (nodes s ! i) = Some i) \<and>
     (\<forall>x. x \<notin> set (nodes s) \<longrightarrow> node_mapper s x = None)"

definition sizes_ok :: "UnionFind \<Rightarrow> bool" where
  "sizes_ok s \<longleftrightarrow>
     (\<forall>r<length (parents s). parents s ! r = r \<longrightarrow>
        component_size s r =
          Some (length (filter (\<lambda>i. rep (parents s) (ranks s) i = r) [0..<length (parents s)])))"

definition cap_ok :: "UnionFind \<Rightarrow> int \<Rightarrow> bool" where
  "cap_ok s m \<longleftrightarrow>
     (\<forall>r<length (parents s). parents s ! r = r \<longrightarrow>
        (\<exists>c. component_size s r = Some c \<and> int c \<le> m))"

definition valid_id :: "UnionFind \<Rightarrow> int \<Rightarrow> bool" where
  "valid_id s x \<longleftrightarrow> x \<in> set (nodes s)"

definition group_by :: "('a \<Rightarrow> 'k) \<Rightarrow> ('a \<Rightarrow> 'v) \<Rightarrow> 'a list \<Rightarrow> ('k \<times> 'v list) list \<Rightarrow> ('k \<times> 'v list) list" where
  "group_by f g xs d = fold (\<lambda>i d. dict_append d (f i) (g i)) xs d"




section \<open>\<open>dbarf/geometry/track.py\<close>\<close>

record TrackElement =
  image_id :: int
  point2D_idx :: int

text \<open>
  \<open>consistent_tracks\<close> is the dict from root id to the list of track
  elements, in insertion order (\<open>write_to_file\<close> iterates over it).
\<close>

record TrackBuilder =
  min_track_length :: int
  max_track_length :: int
  consistent_tracks :: "(int \<times> TrackElement list) list"

definition TrackBuilder_init :: "int \<Rightarrow> int \<Rightarrow> TrackBuilder" where
  \<comment> \<open>\<open>TrackBuilder.__init__(min_track_length=3, max_track_length=40)\<close>\<close>
  "TrackBuilder_init mn mx =
     \<lparr> min_track_length = mn, max_track_length = mx, consistent_tracks = [] \<rparr>"

definition mean_track_length :: "TrackBuilder \<Rightarrow> error + rat" where
  \<comment> \<open>the sum of the track lengths divided by the number of tracks; the
      rounding to two decimals of the printed value is left out\<close>
  "mean_track_length b =
     (if length (consistent_tracks b) = 0 then Inl ZeroDivisionError
      else Inr (of_nat (sum_list (map (\<lambda>(key, track). length track) (consistent_tracks b)))
                / of_nat (length (consistent_tracks b))))"

fun build_group ::
  "UnionFind \<Rightarrow> TrackElement list \<Rightarrow> nat list \<Rightarrow> (int \<times> TrackElement list) list
   \<Rightarrow> (error + UnionFind \<times> (int \<times> TrackElement list) list) option" where
  \<comment> \<open>the loop of \<open>build\<close> over \<open>range(num_track_elements)\<close>, lines 92 to 96\<close>
  "build_group finder track_elements [] tracks = Some (Inr (finder, tracks))"
| "build_group finder track_elements (track_id # rest) tracks =
     Option.bind (find_root finder (int track_id)) (\<lambda>res. case res of
        Inl e \<Rightarrow> Some (Inl e)
      | Inr (finder', root_id) \<Rightarrow>
          if length track_elements \<le> track_id then Some (Inl IndexError)
          else build_group finder' track_elements rest
                 (dict_append tracks (int root_id) (track_elements ! track_id)))"

definition build ::
  "TrackBuilder \<Rightarrow> TrackElement list \<Rightarrow> (int \<times> int) list \<Rightarrow> (error + TrackBuilder) option" where
  \<comment> \<open>\<open>TrackBuilder.build\<close>; its last \<open>print\<close> evaluates \<open>mean_track_length\<close>\<close>
  "build b track_elements track_element_pairs =
     (let num_track_elements = length track_elements;
          finder = uf_init num_track_elements (Some (max_track_length b))
      in Option.bind (union_all finder track_element_pairs) (\<lambda>r1. case r1 of
           Inl e \<Rightarrow> Some (Inl e)
         | Inr finder1 \<Rightarrow>
             Option.bind (validate finder1) (\<lambda>r2. case r2 of
               Inl e \<Rightarrow> Some (Inl e)
             | Inr finder2 \<Rightarrow>
                 Option.bind
                   (build_group finder2 track_elements [0..<num_track_elements]
                      (consistent_tracks b))
                   (\<lambda>r3. case r3 of
                      Inl e \<Rightarrow> Some (Inl e)
                    | Inr (finder3, tracks) \<Rightarrow>
                        (case mean_track_length (b\<lparr>consistent_tracks := tracks\<rparr>) of
                           Inl e \<Rightarrow> Some (Inl e)
                         | Inr mean \<Rightarrow> Some (Inr (b\<lparr>consistent_tracks := tracks\<rparr>)))))))"

fun filter_elements :: "TrackElement list \<Rightarrow> TrackElement list \<Rightarrow> int set \<Rightarrow> TrackElement list" where
  \<comment> \<open>the inner loop of \<open>filter\<close>, lines 121 to 130: \<open>consistent_tracks\<close> (the
      local list) and the keys of \<open>image_ids\<close> are the accumulators\<close>
  "filter_elements [] consistent image_ids = consistent"
| "filter_elements (track_element # rest) consistent image_ids =
     (if image_id track_element \<in> image_ids then filter_elements rest consistent image_ids
      else filter_elements rest (consistent @ [track_element])
             (insert (image_id track_element) image_ids))"

fun filter_loop ::
  "int \<Rightarrow> int list \<Rightarrow> (int \<times> TrackElement list) list \<Rightarrow> error + (int \<times> TrackElement list) list" where
  \<comment> \<open>the outer loop of \<open>filter\<close> over the snapshot of the keys, lines 109 to 136\<close>
  "filter_loop mn [] tracks = Inr tracks"
| "filter_loop mn (root_id # rest) tracks =
     (case map_of tracks root_id of
        None \<Rightarrow> Inl KeyError
      | Some candidate_tracks \<Rightarrow>
          if int (length candidate_tracks) < mn
          then filter_loop mn rest (AList.delete root_id tracks)
          else
            let consistent = filter_elements candidate_tracks [] {} in
            if length candidate_tracks \<noteq> length consistent
            then
              (if int (length consistent) \<ge> mn
               then filter_loop mn rest (AList.update root_id consistent (AList.delete root_id tracks))
               else filter_loop mn rest (AList.delete root_id tracks))
            else filter_loop mn rest tracks)"

definition filter_tracks :: "TrackBuilder \<Rightarrow> error + TrackBuilder" where
  \<comment> \<open>\<open>TrackBuilder.filter\<close>; its last \<open>print\<close> evaluates \<open>mean_track_length\<close>\<close>
  "filter_tracks b =
     (case filter_loop (min_track_length b) (map fst (consistent_tracks b)) (consistent_tracks b) of
        Inl e \<Rightarrow> Inl e
      | Inr tracks \<Rightarrow>
          (case mean_track_length (b\<lparr>consistent_tracks := tracks\<rparr>) of
             Inl e \<Rightarrow> Inl e
           | Inr mean \<Rightarrow> Inr (b\<lparr>consistent_tracks := tracks\<rparr>)))"

definition good_track :: "int \<Rightarrow> TrackElement list \<Rightarrow> bool" where
  "good_track mn tr \<longleftrightarrow> distinct (map image_id tr) \<and> mn \<le> int (length tr)"

subsection \<open>The track file: \<open>write_to_file\<close> and \<open>read_from_file\<close>\<close>

text \<open>
  The file is its content, an ASCII string, as \<open>write_to_file\<close> leaves it on
  a system whose line separator is the line feed.  \<open>str_int\<close> is Python's
  \<open>str\<close> on an \<open>int\<close> (what an f-string writes), \<open>py_int\<close> is \<open>int\<close> on a
  string: surrounding whitespace is stripped, a sign is optional, the digits
  may be separated by single underscores, anything else is a \<open>ValueError\<close>.
\<close>

definition newline :: char where
  "newline = CHR 0x0A"

definition carriage_return :: char where
  "carriage_return = CHR 0x0D"

definition space :: char where
  "space = CHR 0x20"

definition digit_char :: "nat \<Rightarrow> char" where
  "digit_char d = char_of (48 + d)"

function str_nat :: "nat \<Rightarrow> string" where
  "str_nat n = (if n < 10 then [digit_char n] else str_nat (n div 10) @ [digit_char (n mod 10)])"
  by pat_completeness auto
termination
  by (relation "measure id") auto

declare str_nat.simps [simp del]

definition str_int :: "int \<Rightarrow> string" where
  "str_int i = (if i < 0 then CHR ''-'' # str_nat (nat (- i)) else str_nat (nat i))"

definition is_space :: "char \<Rightarrow> bool" where
  \<comment> \<open>the ASCII characters \<open>int\<close> strips: tab, line feed, vertical tab, form
      feed, carriage return, space\<close>
  "is_space c \<longleftrightarrow> (of_char c :: nat) \<in> {9, 10, 11, 12, 13, 32}"

definition is_digit :: "char \<Rightarrow> bool" where
  "is_digit c \<longleftrightarrow> 48 \<le> (of_char c :: nat) \<and> (of_char c :: nat) \<le> 57"

definition digit_val :: "char \<Rightarrow> nat" where
  "digit_val c = of_char c - 48"

definition strip :: "string \<Rightarrow> string" where
  "strip s = rev (dropWhile is_space (rev (dropWhile is_space s)))"

fun digits_value :: "string \<Rightarrow> nat \<Rightarrow> nat option" where
  "digits_value [] acc = Some acc"
| "digits_value (c # cs) acc =
     (if is_digit c then digits_value cs (10 * acc + digit_val c)
      else if c = CHR ''_'' \<and> cs \<noteq> [] \<and> is_digit (hd cs) then digits_value cs acc
      else None)"

definition py_int :: "string \<Rightarrow> error + int" where
  "py_int s =
     (let t = strip s;
          neg = (t \<noteq> [] \<and> hd t = CHR ''-'');
          ds = (if t \<noteq> [] \<and> (hd t = CHR ''-'' \<or> hd t = CHR ''+'') then tl t else t)
      in if ds = [] \<or> \<not> is_digit (hd ds) then Inl ValueError
         else case digits_value ds 0 of
                None \<Rightarrow> Inl ValueError
              | Some n \<Rightarrow> Inr (if neg then - int n else int n))"

fun file_lines :: "string \<Rightarrow> string list" where
  \<comment> \<open>the successive results of \<open>readline()\<close> up to the end of the file.  The
      file is opened in text mode: a line ends at a line feed, at a carriage
      return or at a carriage return followed by a line feed, and each of them
      is read as one line feed\<close>
  "file_lines [] = []"
| "file_lines [c] = (if c = newline \<or> c = carriage_return then [[newline]] else [[c]])"
| "file_lines (c # c2 # cs) =
     (if c = newline then [newline] # file_lines (c2 # cs)
      else if c = carriage_return then
        (if c2 = newline then [newline] # file_lines cs
         else [newline] # file_lines (c2 # cs))
      else case file_lines (c2 # cs) of [] \<Rightarrow> [[c]] | l # ls \<Rightarrow> (c # l) # ls)"

definition rstrip_newline :: "string \<Rightarrow> string" where
  \<comment> \<open>\<open>rstrip('\n')\<close>\<close>
  "rstrip_newline s = rev (dropWhile (\<lambda>c. c = newline) (rev s))"

fun split_space :: "string \<Rightarrow> string list" where
  \<comment> \<open>\<open>split(' ')\<close>: one more piece than there are spaces\<close>
  "split_space [] = [[]]"
| "split_space (c # cs) =
     (if c = space then [] # split_space cs
      else case split_space cs of [] \<Rightarrow> [[c]] | w # ws \<Rightarrow> (c # w) # ws)"

definition write_track :: "int \<times> TrackElement list \<Rightarrow> string" where
  \<comment> \<open>the three \<open>f.write\<close> of one track, lines 154 to 157\<close>
  "write_track kt =
     (case kt of (key, track) \<Rightarrow>
        str_int key @ [space] @ str_int (int (length track)) @ [newline] @
        concat (map (\<lambda>t. str_int (image_id t) @ [space] @ str_int (point2D_idx t) @ [space]) track) @
        [newline])"

definition write_to_file :: "TrackBuilder \<Rightarrow> string" where
  "write_to_file b = concat (map write_track (consistent_tracks b))"

fun read_elements ::
  "string list \<Rightarrow> int list option \<Rightarrow> int \<Rightarrow> nat list \<Rightarrow> (int \<times> TrackElement list) list
   \<Rightarrow> error + (int \<times> TrackElement list) list" where
  \<comment> \<open>the loop over \<open>range(num_track_elements)\<close>, lines 167 to 175\<close>
  "read_elements line image_ids track_id [] tracks = Inr tracks"
| "read_elements line image_ids track_id (i # rest) tracks =
     (if length line \<le> 2 * i + 0 then Inl IndexError
      else case py_int (line ! (2 * i + 0)) of
        Inl e \<Rightarrow> Inl e
      | Inr img \<Rightarrow>
          if length line \<le> 2 * i + 1 then Inl IndexError
          else case py_int (line ! (2 * i + 1)) of
            Inl e \<Rightarrow> Inl e
          | Inr pt \<Rightarrow>
              if (case image_ids of None \<Rightarrow> False | Some ids \<Rightarrow> img \<notin> set ids)
              then read_elements line image_ids track_id rest tracks
              else case map_of tracks track_id of
                None \<Rightarrow> Inl KeyError
              | Some elems \<Rightarrow>
                  read_elements line image_ids track_id rest
                    (AList.update track_id (elems @ [\<lparr>image_id = img, point2D_idx = pt\<rparr>]) tracks))"

definition read_track ::
  "string list \<Rightarrow> string \<Rightarrow> int list option \<Rightarrow> (int \<times> TrackElement list) list
   \<Rightarrow> error + (int \<times> TrackElement list) list" where
  \<comment> \<open>one pass of the \<open>while\<close> body, lines 164 to 175: \<open>line\<close> is the split
      header, \<open>raw\<close> the next \<open>readline()\<close>\<close>
  "read_track line raw image_ids tracks =
     (case py_int (line ! 0) of
        Inl e \<Rightarrow> Inl e
      | Inr track_id \<Rightarrow>
          (case py_int (line ! 1) of
             Inl e \<Rightarrow> Inl e
           | Inr num_track_elements \<Rightarrow>
               read_elements (split_space (rstrip_newline raw)) image_ids track_id
                 [0..<nat num_track_elements] (AList.update track_id [] tracks)))"

fun read_loop ::
  "string list \<Rightarrow> int list option \<Rightarrow> (int \<times> TrackElement list) list
   \<Rightarrow> error + (int \<times> TrackElement list) list" where
  \<comment> \<open>the \<open>while\<close> loop on the lines still to read; at the end of the file
      \<open>readline()\<close> gives the empty string, which splits into one piece\<close>
  "read_loop [] image_ids tracks = Inr tracks"
| "read_loop [raw] image_ids tracks =
     (let line = split_space (rstrip_newline raw) in
      if length line > 1 then read_track line [] image_ids tracks else Inr tracks)"
| "read_loop (raw # raw2 # rest) image_ids tracks =
     (let line = split_space (rstrip_newline raw) in
      if length line > 1 then
        (case read_track line raw2 image_ids tracks of
           Inl e \<Rightarrow> Inl e
         | Inr tracks' \<Rightarrow> read_loop rest image_ids tracks')
      else Inr tracks)"

definition read_from_file :: "TrackBuilder \<Rightarrow> string \<Rightarrow> int list option \<Rightarrow> error + TrackBuilder" where
  "read_from_file b content image_ids =
     (case read_loop (file_lines content) image_ids (consistent_tracks b) of
        Inl e \<Rightarrow> Inl e
      | Inr tracks \<Rightarrow> Inr (b\<lparr>consistent_tracks := tracks\<rparr>))"

text \<open>
  The pieces of a written file, for the proofs: the value of a digit string, the
  header and data line of a track, the pieces \<open>split(' ')\<close> finds in a data
  line, and the lines of a file.
\<close>

definition digits_fold :: "nat \<Rightarrow> string \<Rightarrow> nat" where
  "digits_fold acc xs = foldl (\<lambda>a c. 10 * a + digit_val c) acc xs"

definition data_text :: "TrackElement list \<Rightarrow> string" where
  "data_text tr =
     concat (map (\<lambda>t. str_int (image_id t) @ [space] @ str_int (point2D_idx t) @ [space]) tr)"

definition data_tokens :: "TrackElement list \<Rightarrow> string list" where
  "data_tokens tr = concat (map (\<lambda>t. [str_int (image_id t), str_int (point2D_idx t)]) tr)"

definition header_text :: "int \<times> TrackElement list \<Rightarrow> string" where
  "header_text kt = str_int (fst kt) @ [space] @ str_int (int (length (snd kt)))"

definition track_lines :: "(int \<times> TrackElement list) list \<Rightarrow> string list" where
  "track_lines ts =
     concat (map (\<lambda>kt. [header_text kt @ [newline], data_text (snd kt) @ [newline]]) ts)"

section \<open>Library values used by \<open>dbarf/pose_util.py\<close> and \<open>dbarf/data_loaders/data_utils.py\<close>\<close>

text \<open>
  A \<open>networkx.Graph\<close> is its adjacency dict of dicts, both in insertion order:
  each node with the dict from its neighbours to the weight of the edge.
  \<open>add_edge\<close> creates the two nodes where they are missing and stores the weight
  in both directions; \<open>neighbors\<close> raises \<open>NetworkXError\<close> on a node that is not in
  the graph; \<open>graph[u][v]['weight']\<close> is two dict lookups.
\<close>

type_synonym ('n, 'w) graph = "('n \<times> ('n \<times> 'w) list) list"

definition add_node :: "('n, 'w) graph \<Rightarrow> 'n \<Rightarrow> ('n, 'w) graph" where
  "add_node g n = (case map_of g n of None \<Rightarrow> g @ [(n, [])] | Some adj \<Rightarrow> g)"

definition set_adj :: "('n, 'w) graph \<Rightarrow> 'n \<Rightarrow> 'n \<Rightarrow> 'w \<Rightarrow> ('n, 'w) graph" where
  \<comment> \<open>\<open>_adj[u][v] = w\<close>\<close>
  "set_adj g u v w =
     (case map_of g u of None \<Rightarrow> g | Some adj \<Rightarrow> AList.update u (AList.update v w adj) g)"

definition add_edge :: "('n, 'w) graph \<Rightarrow> 'n \<Rightarrow> 'n \<Rightarrow> 'w \<Rightarrow> ('n, 'w) graph" where
  "add_edge g u v w = set_adj (set_adj (add_node (add_node g u) v) u v w) v u w"

definition neighbors :: "('n, 'w) graph \<Rightarrow> 'n \<Rightarrow> error + 'n list" where
  "neighbors g n = (case map_of g n of None \<Rightarrow> Inl NetworkXError | Some adj \<Rightarrow> Inr (map fst adj))"

definition edge_weight :: "('n, 'w) graph \<Rightarrow> 'n \<Rightarrow> 'n \<Rightarrow> error + 'w" where
  \<comment> \<open>\<open>graph[u][v]['weight']\<close>\<close>
  "edge_weight g u v =
     (case map_of g u of
        None \<Rightarrow> Inl KeyError
      | Some adj \<Rightarrow> (case map_of adj v of None \<Rightarrow> Inl KeyError | Some w \<Rightarrow> Inr w))"

text \<open>
  A float that is compared but not computed with: a real number, an infinity
  or NaN.  \<open>fp_less\<close> is \<open><\<close> on floats; every comparison with NaN is false.
\<close>

datatype fp = Finite real | PosInf | NegInf | NaN

fun fp_less :: "fp \<Rightarrow> fp \<Rightarrow> bool" where
  "fp_less NaN y = False"
| "fp_less x NaN = False"
| "fp_less (Finite a) (Finite b) = (a < b)"
| "fp_less (Finite a) PosInf = True"
| "fp_less (Finite a) NegInf = False"
| "fp_less PosInf y = False"
| "fp_less NegInf (Finite b) = True"
| "fp_less NegInf PosInf = True"
| "fp_less NegInf NegInf = False"

section \<open>\<open>PoseInitializer._load_view_graph\<close> in \<open>dbarf/pose_util.py\<close>\<close>

text \<open>
  What the function reads from the g2o file and computes from it, edge by
  edge: the two image ids, the measured relative pose (of any type \<open>'p\<close>), and
  the rotation error \<open>rot_deg\<close> of that pose against the pseudo ground truth.
\<close>

record 'p g2o_edge =
  e_src :: int
  e_dst :: int
  e_pose :: 'p
  e_rot_deg :: fp

record 'p TwoViewGeometry =
  rel_pose :: 'p
  num_matches :: int
  inlier_mask :: real

definition thresh_rot_low :: fp where
  \<comment> \<open>\<open>PoseInitializer.__init__\<close>, line 318\<close>
  "thresh_rot_low = Finite 5"

definition thresh_rot_high :: fp where
  "thresh_rot_high = Finite 15"

definition edge_inlier :: "fp \<Rightarrow> fp \<Rightarrow> fp \<Rightarrow> real" where
  \<comment> \<open>one entry of \<open>edge_inliers\<close>, lines 595 to 599: 0.5, then 1.0 where
      \<open>rot_deg < thresh_rot_low\<close>, then 0.0 where \<open>rot_deg > thresh_rot_high\<close>\<close>
  "edge_inlier low high rot_deg =
     (let e = 1 / 2;
          e = (if fp_less rot_deg low then 1 else e);
          e = (if fp_less high rot_deg then 0 else e)
      in e)"

definition view_graph_step ::
  "((int \<times> int) \<rightharpoonup> int) \<Rightarrow> real list \<Rightarrow> nat \<times> 'p g2o_edge
   \<Rightarrow> ((int \<times> int) \<times> 'p TwoViewGeometry) list \<times> (int, int) graph
   \<Rightarrow> ((int \<times> int) \<times> 'p TwoViewGeometry) list \<times> (int, int) graph" where
  \<comment> \<open>the body of the loop over \<open>enumerate(all_edge_indices)\<close>, lines 604 to 614\<close>
  "view_graph_step image_pair_to_matches_num edge_inliers ie acc =
     (case ie of (i, edge) \<Rightarrow> case acc of (two_view_geometries, graph) \<Rightarrow>
        let image_pair = (e_src edge, e_dst edge) in
        case image_pair_to_matches_num image_pair of
          None \<Rightarrow> (two_view_geometries, graph)
        | Some n \<Rightarrow>
            (AList.update image_pair
               \<lparr>rel_pose = e_pose edge, num_matches = n, inlier_mask = edge_inliers ! i\<rparr>
               two_view_geometries,
             add_edge graph (fst image_pair) (snd image_pair) n))"

definition load_view_graph ::
  "'p g2o_edge list \<Rightarrow> ((int \<times> int) \<rightharpoonup> int)
   \<Rightarrow> ((int \<times> int) \<times> 'p TwoViewGeometry) list \<times> (int, int) graph" where
  \<comment> \<open>lines 585 to 616: \<open>to_keep\<close>, the classification of every kept edge, and
      the loop that fills \<open>two_view_geometries\<close> and \<open>graph\<close>\<close>
  "load_view_graph edges image_pair_to_matches_num =
     (let kept = filter (\<lambda>e. e_src e < e_dst e) edges;
          edge_inliers = map (\<lambda>e. edge_inlier thresh_rot_low thresh_rot_high (e_rot_deg e)) kept
      in fold (view_graph_step image_pair_to_matches_num edge_inliers) (enumerate 0 kept) ([], []))"

lemma rep_root: "forest ps rk \<Longrightarrow> ps ! i = i \<Longrightarrow> rep ps rk i = i"
  by (subst rep.simps) simp

lemma rep_out: "length ps \<le> i \<Longrightarrow> rep ps rk i = i"
  by (subst rep.simps) simp

lemma rep_step: "forest ps rk \<Longrightarrow> i < length ps \<Longrightarrow> ps ! i \<noteq> i \<Longrightarrow> rep ps rk i = rep ps rk (ps ! i)"
  by (subst rep.simps) (simp add: forest_def)

lemma rep_less: "forest ps rk \<Longrightarrow> i < length ps \<Longrightarrow> rep ps rk i < length ps"
proof (induction ps rk i rule: rep.induct)
  case (1 ps rk i)
  show ?case
  proof (cases "ps ! i = i")
    case True
    with 1 show ?thesis by (simp add: rep_root)
  next
    case False
    with 1 have "rep ps rk (ps ! i) < length ps" by (simp add: forest_def)
    with 1 False show ?thesis by (simp add: rep_step)
  qed
qed

lemma rep_is_root: "forest ps rk \<Longrightarrow> i < length ps \<Longrightarrow> ps ! (rep ps rk i) = rep ps rk i"
proof (induction ps rk i rule: rep.induct)
  case (1 ps rk i)
  show ?case
  proof (cases "ps ! i = i")
    case True
    with 1 show ?thesis by (simp add: rep_root)
  next
    case False
    with 1 have "ps ! (rep ps rk (ps ! i)) = rep ps rk (ps ! i)" by (simp add: forest_def)
    with 1 False show ?thesis by (simp add: rep_step)
  qed
qed

lemma rank_le_rep: "forest ps rk \<Longrightarrow> i < length ps \<Longrightarrow> rk ! i \<le> rk ! (rep ps rk i)"
proof (induction ps rk i rule: rep.induct)
  case (1 ps rk i)
  show ?case
  proof (cases "ps ! i = i")
    case True
    with 1 show ?thesis by (simp add: rep_root)
  next
    case False
    with 1 have "rk ! (ps ! i) \<le> rk ! (rep ps rk (ps ! i))" by (simp add: forest_def)
    moreover from 1 False have "rk ! i < rk ! (ps ! i)" by (simp add: forest_def)
    ultimately show ?thesis using 1 False by (simp add: rep_step)
  qed
qed

lemma rank_less_rep:
  "forest ps rk \<Longrightarrow> i < length ps \<Longrightarrow> ps ! i \<noteq> i \<Longrightarrow> rk ! i < rk ! (rep ps rk i)"
proof -
  assume f: "forest ps rk" and i: "i < length ps" and n: "ps ! i \<noteq> i"
  then have a: "rk ! i < rk ! (ps ! i)" and b: "ps ! i < length ps" by (simp_all add: forest_def)
  from f b have "rk ! (ps ! i) \<le> rk ! (rep ps rk (ps ! i))" by (rule rank_le_rep)
  with a f i n show ?thesis by (simp add: rep_step)
qed

lemma root_iff_rep: "forest ps rk \<Longrightarrow> i < length ps \<Longrightarrow> (rep ps rk i = i) = (ps ! i = i)"
proof (cases "ps ! i = i")
  case True
  assume "forest ps rk"
  with True show ?thesis by (simp add: rep_root)
next
  case False
  assume "forest ps rk" "i < length ps"
  with False have "rk ! i < rk ! (rep ps rk i)" by (simp add: rank_less_rep)
  with False show ?thesis by auto
qed

lemma rep_update_same:
  "forest ps rk \<Longrightarrow> forest (ps[i := r]) rk \<Longrightarrow> i < length ps \<Longrightarrow> r = rep ps rk i \<Longrightarrow>
   rep (ps[i := r]) rk z = rep ps rk z"
proof (induction ps rk z rule: rep.induct)
  case (1 ps rk z)
  note f = \<open>forest ps rk\<close> and f' = \<open>forest (ps[i := r]) rk\<close> and i = \<open>i < length ps\<close>
    and r = \<open>r = rep ps rk i\<close>
  have rr: "ps ! r = r" using f i r by (simp add: rep_is_root)
  have rl: "r < length ps" using f i r by (simp add: rep_less)
  show ?case
  proof (cases "z < length ps")
    case False
    then show ?thesis by (simp add: rep_out)
  next
    case zl: True
    show ?thesis
    proof (cases "ps ! z = z")
      case True
      show ?thesis
      proof (cases "z = i")
        case True
        with \<open>ps ! z = z\<close> f r have "r = i" by (simp add: rep_root)
        with \<open>ps ! z = z\<close> True have "ps[i := r] = ps" by (metis list_update_id)
        then show ?thesis by simp
      next
        case False
        with \<open>ps ! z = z\<close> have "ps[i := r] ! z = z" by simp
        with f' f \<open>ps ! z = z\<close> show ?thesis by (simp add: rep_root)
      qed
    next
      case nz: False
      have zz: "ps ! z < length ps" "rk ! z < rk ! (ps ! z)" "length rk = length ps"
        using f zl nz by (simp_all add: forest_def)
      show ?thesis
      proof (cases "z = i")
        case True
        have "r \<noteq> i" using f i r nz True root_iff_rep [of ps rk i] by simp
        then have a: "ps[i := r] ! r = r" using rr by simp
        have b: "ps[i := r] ! i = r" using i by simp
        have "rep (ps[i := r]) rk i = rep (ps[i := r]) rk r"
          using f' i b \<open>r \<noteq> i\<close> rep_step [of "ps[i := r]" rk i] by simp
        also have "\<dots> = r" using f' a by (rule rep_root)
        finally show ?thesis using True r by simp
      next
        case False
        then have a: "ps[i := r] ! z = ps ! z" by simp
        have "rep (ps[i := r]) rk z = rep (ps[i := r]) rk (ps ! z)"
          using f' zl a nz rep_step [of "ps[i := r]" rk z] by simp
        also have "\<dots> = rep ps rk (ps ! z)"
          using "1.IH" zl zz f f' i r by simp
        also have "\<dots> = rep ps rk z" using f zl nz by (simp add: rep_step)
        finally show ?thesis .
      qed
    qed
  qed
qed

lemma forest_compress:
  assumes f: "forest ps rk" and i: "i < length ps"
  shows "forest (ps[i := rep ps rk i]) rk"
proof -
  let ?r = "rep ps rk i" and ?ps = "ps[i := rep ps rk i]"
  have r: "?r < length ps" using f i by (rule rep_less)
  show ?thesis
    unfolding forest_def
  proof (intro conjI allI impI)
    show "length rk = length ?ps" using f by (simp add: forest_def)
  next
    fix j assume "j < length ?ps"
    then show "?ps ! j < length ?ps" using f r i by (auto simp: forest_def nth_list_update)
  next
    fix j assume j: "j < length ?ps" and n: "?ps ! j \<noteq> j"
    show "rk ! j < rk ! (?ps ! j)"
    proof (cases "j = i")
      case True
      with n i have "?r \<noteq> i" by simp
      then have "ps ! i \<noteq> i" using f by (auto simp: rep_root)
      with f i have "rk ! i < rk ! ?r" by (rule rank_less_rep)
      with True i show ?thesis by simp
    next
      case False
      with j n f show ?thesis by (simp add: forest_def)
    qed
  qed
qed

lemma rep_link:
  "forest ps rk \<Longrightarrow> forest (ps[a := b]) rk' \<Longrightarrow> a < length ps \<Longrightarrow> b < length ps \<Longrightarrow>
   ps ! a = a \<Longrightarrow> ps ! b = b \<Longrightarrow> a \<noteq> b \<Longrightarrow>
   rep (ps[a := b]) rk' z = (if rep ps rk z = a then b else rep ps rk z)"
proof (induction ps rk z rule: rep.induct)
  case (1 ps rk z)
  note f = \<open>forest ps rk\<close> and f' = \<open>forest (ps[a := b]) rk'\<close>
  have bb: "ps[a := b] ! b = b" using \<open>ps ! b = b\<close> \<open>a \<noteq> b\<close> by simp
  show ?case
  proof (cases "z < length ps")
    case False
    with \<open>a < length ps\<close> show ?thesis by (auto simp: rep_out)
  next
    case zl: True
    show ?thesis
    proof (cases "ps ! z = z")
      case True
      then have rz: "rep ps rk z = z" using f by (simp add: rep_root)
      show ?thesis
      proof (cases "z = a")
        case True
        have "rep (ps[a := b]) rk' a = rep (ps[a := b]) rk' b"
          using f' \<open>a < length ps\<close> \<open>a \<noteq> b\<close> rep_step [of "ps[a := b]" rk' a] by simp
        also have "\<dots> = b" using f' bb by (rule rep_root)
        finally show ?thesis using True rz by simp
      next
        case False
        with \<open>ps ! z = z\<close> have "ps[a := b] ! z = z" by simp
        with f' have "rep (ps[a := b]) rk' z = z" by (rule rep_root)
        with rz False show ?thesis by simp
      qed
    next
      case nz: False
      have zz: "ps ! z < length ps" "rk ! z < rk ! (ps ! z)" "length rk = length ps"
        using f zl nz by (simp_all add: forest_def)
      from nz \<open>ps ! a = a\<close> have za: "z \<noteq> a" by auto
      then have a: "ps[a := b] ! z = ps ! z" by simp
      have "rep (ps[a := b]) rk' z = rep (ps[a := b]) rk' (ps ! z)"
        using f' zl a nz rep_step [of "ps[a := b]" rk' z] by simp
      also have "\<dots> = (if rep ps rk (ps ! z) = a then b else rep ps rk (ps ! z))"
        using "1.IH" zl zz "1.prems" by simp
      also have "rep ps rk (ps ! z) = rep ps rk z" using f zl nz by (simp add: rep_step)
      finally show ?thesis .
    qed
  qed
qed

lemma uf_inv_parents:
  "uf_inv s \<Longrightarrow> forest ps' (ranks s) \<Longrightarrow> length ps' = length (parents s) \<Longrightarrow>
   uf_inv (s\<lparr>parents := ps'\<rparr>)"
  by (simp add: uf_inv_def)

lemma find_root_invalid:
  "uf_inv s \<Longrightarrow> x \<notin> set (nodes s) \<Longrightarrow> find_root s x = Some (Inl KeyError)"
proof -
  assume "uf_inv s" and "x \<notin> set (nodes s)"
  then have "node_mapper s x = None" by (simp add: uf_inv_def)
  then show ?thesis by (subst find_root.simps) simp
qed

lemma find_root_rep:
  "uf_inv s \<Longrightarrow> i < length (parents s) \<Longrightarrow>
   \<exists>ps'. find_root s (nodes s ! i) = Some (Inr (s\<lparr>parents := ps'\<rparr>, rep (parents s) (ranks s) i)) \<and>
         length ps' = length (parents s) \<and> forest ps' (ranks s) \<and>
         rep ps' (ranks s) = rep (parents s) (ranks s) \<and>
         ps' ! i = rep (parents s) (ranks s) i"
proof (induction "parents s" "ranks s" i rule: rep.induct)
  case (1 i)
  let ?ps = "parents s" and ?rk = "ranks s"
  from 1 have f: "forest ?ps ?rk" by (simp add: uf_inv_def)
  from 1 have nm: "node_mapper s (nodes s ! i) = Some i" by (simp add: uf_inv_def)
  show ?case
  proof (cases "?ps ! i = i")
    case True
    with 1 nm f have "find_root s (nodes s ! i) = Some (Inr (s\<lparr>parents := ?ps\<rparr>, rep ?ps ?rk i))"
      by (subst find_root.simps) (simp add: rep_root)
    moreover have "?ps ! i = rep ?ps ?rk i" using True f by (simp add: rep_root)
    ultimately show ?thesis using f by blast
  next
    case False
    let ?p = "?ps ! i"
    have pp: "?p < length ?ps" "?rk ! i < ?rk ! ?p" "length ?rk = length ?ps"
      using f 1 False by (simp_all add: forest_def)
    from 1 pp obtain ps1 where
      fr: "find_root s (nodes s ! ?p) = Some (Inr (s\<lparr>parents := ps1\<rparr>, rep ?ps ?rk ?p))"
      and l1: "length ps1 = length ?ps" and f1: "forest ps1 ?rk"
      and r1: "rep ps1 ?rk = rep ?ps ?rk"
      by blast
    have nd: "length (nodes s) = length ?ps"
      using 1 by (simp add: uf_inv_def)
    have rs: "rep ?ps ?rk i = rep ?ps ?rk ?p" using f 1 False by (simp add: rep_step)
    let ?ps' = "ps1[i := rep ps1 ?rk i]"
    have "find_root s (nodes s ! i) = Some (Inr (s\<lparr>parents := ?ps'\<rparr>, rep ?ps ?rk i))"
      using 1 nm False pp nd fr l1 r1 rs by (subst find_root.simps) simp
    moreover have "forest ?ps' ?rk" using f1 l1 1 by (simp add: forest_compress)
    moreover have "rep ?ps' ?rk = rep ps1 ?rk"
    proof
      fix z
      have "forest ?ps' ?rk" using f1 l1 1 by (simp add: forest_compress)
      with f1 l1 1 show "rep ?ps' ?rk z = rep ps1 ?rk z" by (simp add: rep_update_same)
    qed
    moreover have "?ps' ! i = rep ?ps ?rk i" using l1 r1 1 by simp
    ultimately show ?thesis using l1 r1 by auto
  qed
qed

lemma length_filter_link:
  "a \<noteq> b \<Longrightarrow>
   length (filter (\<lambda>i. (if f i = a then b else f i) = r) xs) =
     (if r = a then 0
      else if r = b then length (filter (\<lambda>i. f i = a) xs) + length (filter (\<lambda>i. f i = b) xs)
      else length (filter (\<lambda>i. f i = r) xs))"
proof -
  assume ab: "a \<noteq> b"
  have disj: "length (filter (\<lambda>i. f i = a \<or> f i = b) ys) =
      length (filter (\<lambda>i. f i = a) ys) + length (filter (\<lambda>i. f i = b) ys)" for ys
    using ab by (induction ys) auto
  have "(\<lambda>i. (if f i = a then b else f i) = r) =
        (if r = a then (\<lambda>i. False) else if r = b then (\<lambda>i. f i = a \<or> f i = b) else (\<lambda>i. f i = r))"
    using ab by (auto simp: fun_eq_iff)
  then show ?thesis using disj [of xs] by simp
qed

lemma link_state:
  assumes inv: "uf_inv s" and sz: "sizes_ok s"
    and a: "a < length (parents s)" and b: "b < length (parents s)"
    and ra: "parents s ! a = a" and rb: "parents s ! b = b" and ab: "a \<noteq> b"
    and f': "forest ((parents s)[a := b]) rk'"
    and ca: "component_size s a = Some ca" and cb: "component_size s b = Some cb"
    and s': "s' = s\<lparr>component_size := (component_size s)(b \<mapsto> cb + ca),
                     parents := (parents s)[a := b], ranks := rk'\<rparr>"
  shows "uf_inv s' \<and> sizes_ok s' \<and> length (parents s') = length (parents s) \<and>
         max_num_per_set s' = max_num_per_set s \<and> nodes s' = nodes s \<and>
         (\<forall>m. cap_ok s m \<and> int cb + int ca \<le> m \<longrightarrow> cap_ok s' m)"
proof -
  let ?ps = "parents s" and ?rk = "ranks s" and ?n = "length (parents s)"
  have f: "forest ?ps ?rk" using inv by (simp add: uf_inv_def)
  have rl: "rep (?ps[a := b]) rk' z = (if rep ?ps ?rk z = a then b else rep ?ps ?rk z)" for z
    using f f' a b ra rb ab by (rule rep_link)
  have i1: "uf_inv s'" using inv f' s' by (simp add: uf_inv_def)
  have cnt_a: "length (filter (\<lambda>i. rep ?ps ?rk i = a) [0..<?n]) = ca"
    using sz a ra ca by (simp add: sizes_ok_def)
  have cnt_b: "length (filter (\<lambda>i. rep ?ps ?rk i = b) [0..<?n]) = cb"
    using sz b rb cb by (simp add: sizes_ok_def)
  have i2: "sizes_ok s'"
    unfolding sizes_ok_def
  proof (intro allI impI)
    fix r assume r: "r < length (parents s')" and rr: "parents s' ! r = r"
    from rr s' a ab have na: "r \<noteq> a" by auto
    with rr s' have rr0: "?ps ! r = r" by simp
    from r s' have r0: "r < ?n" by simp
    show "component_size s' r =
          Some (length (filter (\<lambda>i. rep (parents s') (ranks s') i = r) [0..<length (parents s')]))"
    proof (cases "r = b")
      case True
      then show ?thesis using s' rl ab cnt_a cnt_b by (simp add: length_filter_link)
    next
      case False
      then show ?thesis using s' rl ab na sz r0 rr0 by (simp add: length_filter_link sizes_ok_def)
    qed
  qed
  have i3: "cap_ok s' m" if c: "cap_ok s m" and le: "int cb + int ca \<le> m" for m
    unfolding cap_ok_def
  proof (intro allI impI)
    fix r assume r: "r < length (parents s')" and rr: "parents s' ! r = r"
    from rr s' a ab have na: "r \<noteq> a" by auto
    with rr s' have rr0: "?ps ! r = r" by simp
    from r s' have r0: "r < ?n" by simp
    show "\<exists>c. component_size s' r = Some c \<and> int c \<le> m"
    proof (cases "r = b")
      case True
      then show ?thesis using s' le by simp
    next
      case False
      then show ?thesis using s' c r0 rr0 by (simp add: cap_ok_def)
    qed
  qed
  show ?thesis using i1 i2 i3 s' by simp
qed

lemma sizes_ok_parents:
  "sizes_ok s \<Longrightarrow> uf_inv s \<Longrightarrow> forest ps' (ranks s) \<Longrightarrow> length ps' = length (parents s) \<Longrightarrow>
   rep ps' (ranks s) = rep (parents s) (ranks s) \<Longrightarrow> sizes_ok (s\<lparr>parents := ps'\<rparr>)"
proof -
  assume sz: "sizes_ok s" and inv: "uf_inv s" and f': "forest ps' (ranks s)"
    and l: "length ps' = length (parents s)" and r: "rep ps' (ranks s) = rep (parents s) (ranks s)"
  have f: "forest (parents s) (ranks s)" using inv by (simp add: uf_inv_def)
  have "ps' ! i = i \<longleftrightarrow> parents s ! i = i" if "i < length (parents s)" for i
    using root_iff_rep [OF f that] root_iff_rep [OF f', of i] that l r by simp
  then show ?thesis using sz l r by (simp add: sizes_ok_def)
qed

lemma cap_ok_parents:
  "cap_ok s m \<Longrightarrow> uf_inv s \<Longrightarrow> forest ps' (ranks s) \<Longrightarrow> length ps' = length (parents s) \<Longrightarrow>
   rep ps' (ranks s) = rep (parents s) (ranks s) \<Longrightarrow> cap_ok (s\<lparr>parents := ps'\<rparr>) m"
proof -
  assume sz: "cap_ok s m" and inv: "uf_inv s" and f': "forest ps' (ranks s)"
    and l: "length ps' = length (parents s)" and r: "rep ps' (ranks s) = rep (parents s) (ranks s)"
  have f: "forest (parents s) (ranks s)" using inv by (simp add: uf_inv_def)
  have "ps' ! i = i \<longleftrightarrow> parents s ! i = i" if "i < length (parents s)" for i
    using root_iff_rep [OF f that] root_iff_rep [OF f', of i] that l r by simp
  then show ?thesis using sz l by (simp add: cap_ok_def)
qed

lemma forest_link_lower:
  assumes f: "forest ps rk" and x: "x < length ps" and y: "y < length ps"
    and lt: "rk ! x < rk ! y"
  shows "forest (ps[x := y]) rk"
  unfolding forest_def
proof (intro conjI allI impI)
  show "length rk = length (ps[x := y])" using f by (simp add: forest_def)
next
  fix j assume "j < length (ps[x := y])"
  then show "ps[x := y] ! j < length (ps[x := y])"
    using f x y by (auto simp: forest_def nth_list_update)
next
  fix j assume "j < length (ps[x := y])" and "ps[x := y] ! j \<noteq> j"
  then show "rk ! j < rk ! (ps[x := y] ! j)"
    using f x lt by (cases "j = x") (simp_all add: forest_def)
qed

lemma forest_link_higher:
  assumes f: "forest ps rk" and x: "x < length ps" and y: "y < length ps"
    and rx: "ps ! x = x" and xy: "x \<noteq> y" and ge: "\<not> rk ! x < rk ! y"
  shows "forest (ps[y := x]) (if rk ! x = rk ! y then rk[x := rk ! x + 1] else rk)"
  unfolding forest_def
proof (intro conjI allI impI)
  let ?rk = "if rk ! x = rk ! y then rk[x := rk ! x + 1] else rk"
  show "length ?rk = length (ps[y := x])" using f by (simp add: forest_def)
  have up: "rk ! k \<le> ?rk ! k" if "k < length ps" for k
    using f that x by (cases "k = x") (auto simp: forest_def)
  fix j assume j: "j < length (ps[y := x])"
  then show "ps[y := x] ! j < length (ps[y := x])"
    using f x y by (auto simp: forest_def nth_list_update)
  assume n: "ps[y := x] ! j \<noteq> j"
  show "?rk ! j < ?rk ! (ps[y := x] ! j)"
  proof (cases "j = y")
    case True
    then show ?thesis using f x y xy ge by (auto simp: forest_def)
  next
    case False
    with n have pj: "ps ! j \<noteq> j" by simp
    with rx have jx: "j \<noteq> x" by auto
    from f j pj have a: "rk ! j < rk ! (ps ! j)" "ps ! j < length ps" by (simp_all add: forest_def)
    from jx have "?rk ! j = rk ! j" by simp
    with a up [of "ps ! j"] False show ?thesis by simp
  qed
qed

lemma union_roots_inv:
  assumes inv: "uf_inv s" and sz: "sizes_ok s"
    and x: "x < length (parents s)" and y: "y < length (parents s)"
    and rx: "parents s ! x = x" and ry: "parents s ! y = y"
  shows "\<exists>s'. union_roots s x y = Inr s' \<and> uf_inv s' \<and> sizes_ok s' \<and>
              length (parents s') = length (parents s) \<and>
              max_num_per_set s' = max_num_per_set s \<and> nodes s' = nodes s \<and>
              (\<forall>m. max_num_per_set s = Some m \<and> cap_ok s m \<longrightarrow> cap_ok s' m)"
proof (cases "x = y")
  case True
  with inv sz show ?thesis by (simp add: union_roots_def)
next
  case False
  let ?ps = "parents s" and ?rk = "ranks s"
  have f: "forest ?ps ?rk" using inv by (simp add: uf_inv_def)
  then have lr: "length ?rk = length ?ps" by (simp add: forest_def)
  from sz x rx obtain cx where cx: "component_size s x = Some cx" by (simp add: sizes_ok_def)
  from sz y ry obtain cy where cy: "component_size s y = Some cy" by (simp add: sizes_ok_def)
  have merge: "\<exists>s'. merge_roots s x y = Inr s' \<and> uf_inv s' \<and> sizes_ok s' \<and>
              length (parents s') = length (parents s) \<and>
              max_num_per_set s' = max_num_per_set s \<and> nodes s' = nodes s \<and>
              (\<forall>m. cap_ok s m \<and> int cx + int cy \<le> m \<longrightarrow> cap_ok s' m)"
  proof (cases "?rk ! x < ?rk ! y")
    case True
    let ?s' = "s\<lparr>component_size := (component_size s)(y \<mapsto> cy + cx),
                  parents := ?ps[x := y], ranks := ?rk\<rparr>"
    have m: "merge_roots s x y = Inr ?s'"
      using True x y lr cx cy by (simp add: merge_roots_def)
    have f': "forest (?ps[x := y]) ?rk" using f x y True by (rule forest_link_lower)
    from link_state [OF inv sz x y rx ry False f' cx cy refl] m
    show ?thesis by (auto simp: add.commute)
  next
    case ge: False
    let ?rk' = "if ?rk ! x = ?rk ! y then ?rk[x := ?rk ! x + 1] else ?rk"
    let ?s' = "s\<lparr>component_size := (component_size s)(x \<mapsto> cx + cy),
                  parents := ?ps[y := x], ranks := ?rk'\<rparr>"
    have m: "merge_roots s x y = Inr ?s'"
      using ge x y lr cx cy by (simp add: merge_roots_def)
    have f': "forest (?ps[y := x]) ?rk'" using f x y rx False ge by (rule forest_link_higher)
    from False have yx: "y \<noteq> x" by simp
    from link_state [OF inv sz y x ry rx yx f' cy cx refl] m
    show ?thesis by auto
  qed
  show ?thesis
  proof (cases "max_num_per_set s")
    case None
    with False merge show ?thesis by (auto simp: union_roots_def)
  next
    case (Some m)
    show ?thesis
    proof (cases "int cx + int cy > m")
      case True
      with Some False cx cy inv sz show ?thesis by (simp add: union_roots_def)
    next
      case False
      with Some \<open>x \<noteq> y\<close> cx cy merge show ?thesis by (auto simp: union_roots_def)
    qed
  qed
qed

lemma find_root_valid:
  assumes inv: "uf_inv s" and v: "valid_id s x"
  shows "\<exists>i ps'. i < length (parents s) \<and> nodes s ! i = x \<and>
         find_root s x = Some (Inr (s\<lparr>parents := ps'\<rparr>, rep (parents s) (ranks s) i)) \<and>
         length ps' = length (parents s) \<and> forest ps' (ranks s) \<and>
         rep ps' (ranks s) = rep (parents s) (ranks s) \<and>
         ps' ! i = rep (parents s) (ranks s) i"
proof -
  from v obtain i where "i < length (nodes s)" "nodes s ! i = x"
    by (auto simp: valid_id_def in_set_conv_nth)
  moreover from inv have "length (nodes s) = length (parents s)" by (simp add: uf_inv_def)
  ultimately have i: "i < length (parents s)" "nodes s ! i = x" by simp_all
  from find_root_rep [OF inv i(1)] i show ?thesis by auto
qed

lemma uf_union_inv:
  assumes inv: "uf_inv s" and sz: "sizes_ok s" and vx: "valid_id s x" and vy: "valid_id s y"
  shows "\<exists>s'. uf_union s x y = Some (Inr s') \<and> uf_inv s' \<and> sizes_ok s' \<and>
              length (parents s') = length (parents s) \<and> nodes s' = nodes s \<and>
              max_num_per_set s' = max_num_per_set s \<and>
              (\<forall>m. max_num_per_set s = Some m \<and> cap_ok s m \<longrightarrow> cap_ok s' m)"
proof -
  let ?ps = "parents s" and ?rk = "ranks s"
  have f: "forest ?ps ?rk" using inv by (simp add: uf_inv_def)
  from find_root_valid [OF inv vx] obtain ix ps1 where
    nx: "ix < length ?ps"
    and fr1: "find_root s x = Some (Inr (s\<lparr>parents := ps1\<rparr>, rep ?ps ?rk ix))"
    and l1: "length ps1 = length ?ps" and f1: "forest ps1 ?rk" and r1: "rep ps1 ?rk = rep ?ps ?rk"
    by blast
  let ?s1 = "s\<lparr>parents := ps1\<rparr>"
  have inv1: "uf_inv ?s1" using inv f1 l1 by (rule uf_inv_parents)
  have sz1: "sizes_ok ?s1" using sz inv f1 l1 r1 by (rule sizes_ok_parents)
  have vy1: "valid_id ?s1 y" using vy by (simp add: valid_id_def)
  from find_root_valid [OF inv1 vy1] obtain iy ps2 where
    ny: "iy < length ?ps"
    and fr2: "find_root ?s1 y = Some (Inr (s\<lparr>parents := ps2\<rparr>, rep ?ps ?rk iy))"
    and l2: "length ps2 = length ?ps" and f2: "forest ps2 ?rk" and r2: "rep ps2 ?rk = rep ?ps ?rk"
    using l1 r1 by auto
  let ?s2 = "s\<lparr>parents := ps2\<rparr>"
  have inv2: "uf_inv ?s2" using inv f2 l2 by (rule uf_inv_parents)
  have sz2: "sizes_ok ?s2" using sz inv f2 l2 r2 by (rule sizes_ok_parents)
  have cap2: "cap_ok ?s2 m" if "cap_ok s m" for m using that inv f2 l2 r2 by (rule cap_ok_parents)
  let ?x = "rep ?ps ?rk ix" and ?y = "rep ?ps ?rk iy"
  have x: "?x < length (parents ?s2)" using f nx l2 by (simp add: rep_less)
  have y: "?y < length (parents ?s2)" using f ny l2 by (simp add: rep_less)
  have rx: "parents ?s2 ! ?x = ?x" using rep_is_root [OF f2, of ix] nx l2 r2 by simp
  have ry: "parents ?s2 ! ?y = ?y" using rep_is_root [OF f2, of iy] ny l2 r2 by simp
  from union_roots_inv [OF inv2 sz2 x y rx ry] obtain s' where
    u: "union_roots ?s2 ?x ?y = Inr s'" and i': "uf_inv s'" "sizes_ok s'"
    "length (parents s') = length (parents ?s2)" "max_num_per_set s' = max_num_per_set ?s2"
    "nodes s' = nodes ?s2"
    "\<forall>m. max_num_per_set ?s2 = Some m \<and> cap_ok ?s2 m \<longrightarrow> cap_ok s' m"
    by blast
  have "uf_union s x y = Some (Inr s')" using fr1 fr2 u by (simp add: uf_union_def)
  then show ?thesis using i' l2 cap2 by auto
qed

lemma uf_union_Inr_valid:
  assumes inv: "uf_inv s" and u: "uf_union s x y = Some (Inr s')"
  shows "valid_id s x \<and> valid_id s y"
proof -
  have vx: "valid_id s x"
  proof (rule ccontr)
    assume "\<not> valid_id s x"
    with inv have "find_root s x = Some (Inl KeyError)"
      by (simp add: find_root_invalid valid_id_def)
    with u show False by (simp add: uf_union_def)
  qed
  from find_root_valid [OF inv vx] obtain ix ps1 where
    fr1: "find_root s x = Some (Inr (s\<lparr>parents := ps1\<rparr>, rep (parents s) (ranks s) ix))"
    and l1: "length ps1 = length (parents s)" and f1: "forest ps1 (ranks s)"
    by blast
  have inv1: "uf_inv (s\<lparr>parents := ps1\<rparr>)" using inv f1 l1 by (rule uf_inv_parents)
  have "valid_id s y"
  proof (rule ccontr)
    assume "\<not> valid_id s y"
    with inv1 have "find_root (s\<lparr>parents := ps1\<rparr>) y = Some (Inl KeyError)"
      by (simp add: find_root_invalid valid_id_def)
    with u fr1 show False by (simp add: uf_union_def)
  qed
  with vx show ?thesis ..
qed

lemma dict_append_map_of:
  "map_of (dict_append d k v) k' =
     (if k' = k then Some ((case map_of d k of None \<Rightarrow> [] | Some vs \<Rightarrow> vs) @ [v]) else map_of d k')"
  by (simp add: dict_append_def update_conv' split: option.split)

lemma dict_append_distinct: "distinct (map fst d) \<Longrightarrow> distinct (map fst (dict_append d k v))"
  by (simp add: dict_append_def distinct_update split: option.split)

lemma group_by_distinct: "distinct (map fst d) \<Longrightarrow> distinct (map fst (group_by f g xs d))"
  unfolding group_by_def by (induction xs arbitrary: d) (simp_all add: dict_append_distinct)

lemma group_by_map_of:
  "map_of (group_by f g xs d) k =
     (if k \<in> f ` set xs \<or> map_of d k \<noteq> None
      then Some ((case map_of d k of None \<Rightarrow> [] | Some vs \<Rightarrow> vs) @ map g (filter (\<lambda>i. f i = k) xs))
      else None)"
  unfolding group_by_def
proof (induction xs arbitrary: d)
  case Nil
  then show ?case by (auto split: option.split)
next
  case (Cons x xs)
  show ?case
    by (simp add: Cons.IH dict_append_map_of split: option.split)
qed

lemma group_by_members:
  assumes "(k, vs) \<in> set (group_by f g xs [])"
  shows "k \<in> f ` set xs \<and> vs = map g (filter (\<lambda>i. f i = k) xs)"
proof -
  have "distinct (map fst (group_by f g xs []))" by (rule group_by_distinct) simp
  with assms have "map_of (group_by f g xs []) k = Some vs" by simp
  then show ?thesis by (simp add: group_by_map_of split: if_splits)
qed

lemma validate_collect_group:
  "uf_inv s \<Longrightarrow> \<forall>i\<in>set js. i < length (parents s) \<Longrightarrow>
   \<exists>ps'. validate_collect s (map (\<lambda>i. nodes s ! i) js) d =
           Some (Inr (s\<lparr>parents := ps'\<rparr>,
                      group_by (rep (parents s) (ranks s)) (\<lambda>i. nodes s ! i) js d)) \<and>
         length ps' = length (parents s) \<and> forest ps' (ranks s) \<and>
         rep ps' (ranks s) = rep (parents s) (ranks s)"
proof (induction js arbitrary: s d)
  case Nil
  have "s\<lparr>parents := parents s\<rparr> = s" by simp
  with Nil show ?case by (auto simp: group_by_def uf_inv_def intro!: exI [of _ "parents s"])
next
  case (Cons j js)
  let ?ps = "parents s" and ?rk = "ranks s"
  from Cons.prems have j: "j < length ?ps" by simp
  from find_root_rep [OF Cons.prems(1) j] obtain ps1 where
    fr: "find_root s (nodes s ! j) = Some (Inr (s\<lparr>parents := ps1\<rparr>, rep ?ps ?rk j))"
    and l1: "length ps1 = length ?ps" and f1: "forest ps1 ?rk" and r1: "rep ps1 ?rk = rep ?ps ?rk"
    by blast
  let ?s1 = "s\<lparr>parents := ps1\<rparr>"
  have inv1: "uf_inv ?s1" using Cons.prems(1) f1 l1 by (rule uf_inv_parents)
  have js: "\<forall>i\<in>set js. i < length (parents ?s1)" using Cons.prems(2) l1 by simp
  from Cons.IH [OF inv1 js, of "dict_append d (rep ?ps ?rk j) (nodes s ! j)"]
  obtain ps' where
    vc: "validate_collect ?s1 (map (\<lambda>i. nodes s ! i) js) (dict_append d (rep ?ps ?rk j) (nodes s ! j)) =
         Some (Inr (s\<lparr>parents := ps'\<rparr>,
           group_by (rep ?ps ?rk) (\<lambda>i. nodes s ! i) js (dict_append d (rep ?ps ?rk j) (nodes s ! j))))"
    and p': "length ps' = length ?ps" "forest ps' ?rk" "rep ps' ?rk = rep ?ps ?rk"
    using l1 r1 by auto
  have "validate_collect s (map (\<lambda>i. nodes s ! i) (j # js)) d =
        Some (Inr (s\<lparr>parents := ps'\<rparr>, group_by (rep ?ps ?rk) (\<lambda>i. nodes s ! i) (j # js) d))"
    using fr vc by (simp add: group_by_def)
  with p' show ?case by blast
qed

lemma validate_check_ok:
  "\<forall>(k, vs)\<in>set d. int (length vs) \<le> m \<Longrightarrow> validate_check (Some m) d = None"
  by (induction d) auto

lemma validate_check_Some:
  "validate_check (Some m) d = None \<Longrightarrow> (k, vs) \<in> set d \<Longrightarrow> int (length vs) \<le> m"
  by (induction d) (auto split: if_splits)

lemma nodes_nth: "uf_inv s \<Longrightarrow> nodes s = map (\<lambda>i. nodes s ! i) [0..<length (parents s)]"
  using map_nth [of "nodes s"] by (simp add: uf_inv_def)

lemma validate_result:
  assumes inv: "uf_inv s"
  shows "\<exists>ps'. validate_collect s (nodes s) [] =
           Some (Inr (s\<lparr>parents := ps'\<rparr>,
              group_by (rep (parents s) (ranks s)) (\<lambda>i. nodes s ! i) [0..<length (parents s)] [])) \<and>
         length ps' = length (parents s) \<and> forest ps' (ranks s) \<and>
         rep ps' (ranks s) = rep (parents s) (ranks s)"
proof -
  have "\<forall>i\<in>set [0..<length (parents s)]. i < length (parents s)" by simp
  from validate_collect_group [OF inv this, of "[]"] nodes_nth [OF inv] show ?thesis by simp
qed

lemma validate_ok:
  assumes inv: "uf_inv s" and sz: "sizes_ok s" and cap: "cap_ok s m"
    and m: "max_num_per_set s = Some m"
  shows "\<exists>ps'. validate s = Some (Inr (s\<lparr>parents := ps'\<rparr>)) \<and>
         length ps' = length (parents s) \<and> forest ps' (ranks s) \<and>
         rep ps' (ranks s) = rep (parents s) (ranks s)"
proof -
  let ?ps = "parents s" and ?rk = "ranks s" and ?n = "length (parents s)"
  let ?d = "group_by (rep ?ps ?rk) (\<lambda>i. nodes s ! i) [0..<?n] []"
  have f: "forest ?ps ?rk" using inv by (simp add: uf_inv_def)
  from validate_result [OF inv] obtain ps' where
    vc: "validate_collect s (nodes s) [] = Some (Inr (s\<lparr>parents := ps'\<rparr>, ?d))"
    and p': "length ps' = ?n" "forest ps' ?rk" "rep ps' ?rk = rep ?ps ?rk"
    by blast
  have "\<forall>(k, vs)\<in>set ?d. int (length vs) \<le> m"
  proof (clarify)
    fix k vs assume "(k, vs) \<in> set ?d"
    then have k: "k \<in> rep ?ps ?rk ` set [0..<?n]"
      and vs: "vs = map (\<lambda>i. nodes s ! i) (filter (\<lambda>i. rep ?ps ?rk i = k) [0..<?n])"
      using group_by_members by fastforce+
    from k obtain j where j: "j < ?n" "k = rep ?ps ?rk j" by auto
    then have kl: "k < ?n" and kr: "?ps ! k = k" using f by (simp_all add: rep_less rep_is_root)
    from sz kl kr have "component_size s k = Some (length vs)" by (simp add: sizes_ok_def vs)
    with cap kl kr show "int (length vs) \<le> m" by (auto simp: cap_ok_def)
  qed
  then have "validate_check (Some m) ?d = None" by (rule validate_check_ok)
  with vc m have "validate s = Some (Inr (s\<lparr>parents := ps'\<rparr>))" by (simp add: validate_def)
  with p' show ?thesis by blast
qed

lemma root_of_valid:
  "uf_inv s \<Longrightarrow> i < length (parents s) \<Longrightarrow> root_of s (nodes s ! i) = Some (rep (parents s) (ranks s) i)"
  using find_root_rep [of s i] by (auto simp: root_of_def)

lemma component_length:
  assumes inv: "uf_inv s" and i: "i < length (parents s)"
  shows "length (component s (nodes s ! i)) =
         length (filter (\<lambda>j. rep (parents s) (ranks s) j = rep (parents s) (ranks s) i) [0..<length (parents s)])"
proof -
  let ?n = "length (parents s)"
  have "component s (nodes s ! i) =
        filter (\<lambda>z. root_of s z = root_of s (nodes s ! i)) (map (\<lambda>i. nodes s ! i) [0..<?n])"
    using nodes_nth [OF inv] by (simp add: component_def)
  also have "\<dots> = map (\<lambda>i. nodes s ! i)
      (filter (\<lambda>j. root_of s (nodes s ! j) = root_of s (nodes s ! i)) [0..<?n])"
    by (simp add: filter_map comp_def)
  also have "filter (\<lambda>j. root_of s (nodes s ! j) = root_of s (nodes s ! i)) [0..<?n] =
      filter (\<lambda>j. rep (parents s) (ranks s) j = rep (parents s) (ranks s) i) [0..<?n]"
    using inv i by (intro filter_cong) (simp_all add: root_of_valid)
  finally show ?thesis by simp
qed

lemma component_le_cap:
  assumes inv: "uf_inv s" and sz: "sizes_ok s" and cap: "cap_ok s m"
    and i: "i < length (parents s)"
  shows "int (length (component s (nodes s ! i))) \<le> m"
proof -
  let ?r = "rep (parents s) (ranks s) i"
  have f: "forest (parents s) (ranks s)" using inv by (simp add: uf_inv_def)
  have r: "?r < length (parents s)" "parents s ! ?r = ?r"
    using f i by (simp_all add: rep_less rep_is_root)
  with sz have "component_size s ?r = Some (length (component s (nodes s ! i)))"
    by (simp add: sizes_ok_def component_length [OF inv i])
  with cap r show ?thesis by (auto simp: cap_ok_def)
qed

lemma length_filter_eq_upt: "length (filter (\<lambda>i. i = r) [0..<n]) = (if r < n then 1 else 0)"
  by (induction n) auto

lemma forest_init: "forest [0..<n] (replicate n 0)"
  by (simp add: forest_def)

lemma rep_init: "rep [0..<n] (replicate n 0) i = i"
  by (cases "i < n") (simp_all add: rep_root rep_out forest_init)

lemma set_map_int_upt: "x \<in> set (map int [0..<n]) \<longleftrightarrow> 0 \<le> x \<and> x < int n"
proof
  assume "0 \<le> x \<and> x < int n"
  then have "x = int (nat x)" "nat x \<in> set [0..<n]" by auto
  then show "x \<in> set (map int [0..<n])" by (metis image_eqI set_map)
qed auto

lemma uf_inv_init: "uf_inv (uf_init n cap)"
  using set_map_int_upt [of _ n]
  by (auto simp: uf_inv_def uf_init_def forest_init distinct_map inj_on_def)

lemma sizes_ok_init: "sizes_ok (uf_init n cap)"
  by (simp add: sizes_ok_def uf_init_def rep_init length_filter_eq_upt)

lemma cap_ok_init: "1 \<le> m \<Longrightarrow> cap_ok (uf_init n cap) m"
  by (simp add: cap_ok_def uf_init_def)

lemma union_all_inv:
  "uf_inv s \<Longrightarrow> sizes_ok s \<Longrightarrow> \<forall>(x, y)\<in>set pairs. valid_id s x \<and> valid_id s y \<Longrightarrow>
   \<exists>s'. union_all s pairs = Some (Inr s') \<and> uf_inv s' \<and> sizes_ok s' \<and>
        length (parents s') = length (parents s) \<and> nodes s' = nodes s \<and>
        max_num_per_set s' = max_num_per_set s \<and>
        (\<forall>m. max_num_per_set s = Some m \<and> cap_ok s m \<longrightarrow> cap_ok s' m)"
proof (induction pairs arbitrary: s)
  case Nil
  then show ?case by simp
next
  case (Cons p pairs)
  obtain x y where p: "p = (x, y)" by (cases p)
  with Cons.prems have v: "valid_id s x" "valid_id s y" by simp_all
  from uf_union_inv [OF Cons.prems(1,2) v] obtain s1 where
    u: "uf_union s x y = Some (Inr s1)" and i1: "uf_inv s1" "sizes_ok s1"
    and k1: "length (parents s1) = length (parents s)" "nodes s1 = nodes s"
      "max_num_per_set s1 = max_num_per_set s"
      "\<forall>m. max_num_per_set s = Some m \<and> cap_ok s m \<longrightarrow> cap_ok s1 m"
    by blast
  have "\<forall>(x, y)\<in>set pairs. valid_id s1 x \<and> valid_id s1 y"
    using Cons.prems(3) k1 by (auto simp: valid_id_def)
  from Cons.IH [OF i1 this] obtain s' where
    "union_all s1 pairs = Some (Inr s')" "uf_inv s'" "sizes_ok s'"
    "length (parents s') = length (parents s1)" "nodes s' = nodes s1"
    "max_num_per_set s' = max_num_per_set s1"
    "\<forall>m. max_num_per_set s1 = Some m \<and> cap_ok s1 m \<longrightarrow> cap_ok s' m"
    by blast
  with u k1 p show ?case by auto
qed

lemma union_all_Inr_inv:
  "uf_inv s \<Longrightarrow> sizes_ok s \<Longrightarrow> union_all s pairs = Some (Inr s') \<Longrightarrow>
   uf_inv s' \<and> sizes_ok s' \<and> length (parents s') = length (parents s) \<and> nodes s' = nodes s \<and>
   max_num_per_set s' = max_num_per_set s"
proof (induction pairs arbitrary: s)
  case Nil
  then show ?case by simp
next
  case (Cons p pairs)
  obtain x y where p: "p = (x, y)" by (cases p)
  from Cons.prems(3) p obtain res where u0: "uf_union s x y = Some res"
    by (cases "uf_union s x y") simp_all
  with Cons.prems(3) p obtain s1 where u: "uf_union s x y = Some (Inr s1)"
    and r: "union_all s1 pairs = Some (Inr s')"
    by (cases res) simp_all
  from uf_union_Inr_valid [OF Cons.prems(1) u] have v: "valid_id s x" "valid_id s y" by simp_all
  from uf_union_inv [OF Cons.prems(1,2) v] u have i1: "uf_inv s1" "sizes_ok s1"
    and k1: "length (parents s1) = length (parents s)" "nodes s1 = nodes s"
      "max_num_per_set s1 = max_num_per_set s"
    by auto
  from Cons.IH [OF i1 r] k1 show ?case by simp
qed


text \<open>
  Claim C1, amended by the hypothesis \<open>1 \<le> m\<close>.  From \<open>UnionFind(n, m)\<close> with a cap
  of at least one, every finite sequence of \<open>union\<close> calls on ids of \<open>range(n)\<close>
  returns; afterwards every component has at most \<open>m\<close> members and \<open>validate()\<close>
  returns without raising.
\<close>

theorem union_cap_invariant:
  assumes m: "1 \<le> m"
    and pairs: "\<forall>(x, y)\<in>set pairs. 0 \<le> x \<and> x < int n \<and> 0 \<le> y \<and> y < int n"
  shows "\<exists>s. union_all (uf_init n (Some m)) pairs = Some (Inr s) \<and>
             (\<forall>x. 0 \<le> x \<and> x < int n \<longrightarrow> int (length (component s x)) \<le> m) \<and>
             (\<exists>s'. validate s = Some (Inr s'))"
proof -
  let ?s0 = "uf_init n (Some m)"
  have nodes0: "nodes ?s0 = map int [0..<n]" and len0: "length (parents ?s0) = n"
    and cap0: "max_num_per_set ?s0 = Some m"
    by (simp_all add: uf_init_def)
  have valid: "valid_id ?s0 x \<longleftrightarrow> 0 \<le> x \<and> x < int n" for x
    using set_map_int_upt [of x n] by (simp add: valid_id_def nodes0)
  from pairs have "\<forall>(x, y)\<in>set pairs. valid_id ?s0 x \<and> valid_id ?s0 y"
    by (auto simp: valid)
  from union_all_inv [OF uf_inv_init sizes_ok_init this] cap_ok_init [OF m, of n "Some m"]
  obtain s where u: "union_all ?s0 pairs = Some (Inr s)"
    and inv: "uf_inv s" and sz: "sizes_ok s" and cap: "cap_ok s m"
    and k: "length (parents s) = n" "nodes s = map int [0..<n]" "max_num_per_set s = Some m"
    using nodes0 len0 cap0 by auto
  have "int (length (component s x)) \<le> m" if "0 \<le> x \<and> x < int n" for x
  proof -
    from that have "nat x < length (parents s)" "nodes s ! nat x = x" using k by auto
    with component_le_cap [OF inv sz cap, of "nat x"] show ?thesis by simp
  qed
  moreover from validate_ok [OF inv sz cap k(3)] have "\<exists>s'. validate s = Some (Inr s')" by blast
  ultimately show ?thesis using u by blast
qed

text \<open>
  Claim C1 as stated fails for a cap below one: in \<open>UnionFind(1, 0)\<close>, with no
  \<open>union\<close> call at all, the component of node 0 has one member and \<open>validate()\<close>
  fails its assertion.
\<close>

theorem union_cap_counterexample:
  "union_all (uf_init 1 (Some 0)) [] = Some (Inr (uf_init 1 (Some 0))) \<and>
   validate (uf_init 1 (Some 0)) = Some (Inl AssertionError) \<and>
   \<not> int (length (component (uf_init 1 (Some 0)) 0)) \<le> 0"
proof -
  have fr: "find_root (uf_init 1 (Some 0)) 0 = Some (Inr (uf_init 1 (Some 0), 0))"
    by (subst find_root.simps) (simp add: uf_init_def)
  have n: "nodes (uf_init 1 (Some 0)) = [0]" "max_num_per_set (uf_init 1 (Some 0)) = Some 0"
    by (simp_all add: uf_init_def)
  show ?thesis
    by (simp add: validate_def component_def root_of_def fr n dict_append_def del: One_nat_def)
qed

text \<open>Claim C1, witness: three nodes, cap two, two \<open>union\<close> calls.\<close>

theorem union_cap_invariant_witness:
  "\<exists>s. union_all (uf_init 3 (Some 2)) [(0, 1), (1, 2)] = Some (Inr s) \<and>
       (\<forall>x. 0 \<le> x \<and> x < int 3 \<longrightarrow> int (length (component s x)) \<le> 2) \<and>
       (\<exists>s'. validate s = Some (Inr s'))"
  using union_cap_invariant [of 2 "[(0, 1), (1, 2)]" 3] by simp



























lemma filter_elements_length:
  "length (filter_elements es acc seen) \<le> length acc + length es"
proof (induction es arbitrary: acc seen)
  case Nil
  then show ?case by simp
next
  case (Cons e es)
  from Cons.IH [of acc seen] Cons.IH [of "acc @ [e]" "insert (image_id e) seen"]
  show ?case by simp
qed

lemma filter_elements_distinct:
  "distinct (map image_id acc) \<Longrightarrow> image_id ` set acc \<subseteq> seen \<Longrightarrow>
   distinct (map image_id (filter_elements es acc seen))"
proof (induction es arbitrary: acc seen)
  case Nil
  then show ?case by simp
next
  case (Cons e es)
  show ?case
  proof (cases "image_id e \<in> seen")
    case True
    with Cons show ?thesis by simp
  next
    case False
    with Cons.prems have "distinct (map image_id (acc @ [e]))"
      "image_id ` set (acc @ [e]) \<subseteq> insert (image_id e) seen"
      by auto
    with False Cons.IH [of "acc @ [e]" "insert (image_id e) seen"] show ?thesis by simp
  qed
qed

lemma filter_elements_same:
  "length (filter_elements es acc seen) = length acc + length es \<Longrightarrow>
   filter_elements es acc seen = acc @ es"
proof (induction es arbitrary: acc seen)
  case Nil
  then show ?case by simp
next
  case (Cons e es)
  show ?case
  proof (cases "image_id e \<in> seen")
    case True
    with Cons.prems filter_elements_length [of es acc seen] show ?thesis by simp
  next
    case False
    with Cons.prems Cons.IH [of "acc @ [e]" "insert (image_id e) seen"] show ?thesis by simp
  qed
qed

lemma filter_loop_spec:
  "distinct (map fst d) \<Longrightarrow> distinct ks \<Longrightarrow> set ks \<subseteq> fst ` set d \<Longrightarrow>
   \<exists>d'. filter_loop mn ks d = Inr d' \<and> distinct (map fst d') \<and>
     (\<forall>k tr'. map_of d' k = Some tr' \<longrightarrow>
        (\<exists>tr. map_of d k = Some tr \<and> length tr' \<le> length tr \<and>
              (k \<in> set ks \<longrightarrow> good_track mn tr') \<and> (k \<notin> set ks \<longrightarrow> tr' = tr)))"
proof (induction ks arbitrary: d)
  case Nil
  then show ?case by simp
next
  case (Cons k ks)
  from Cons.prems have "k \<in> fst ` set d" by simp
  then have "map_of d k \<noteq> None" by (simp only: map_of_eq_None_iff not_not)
  then obtain cand where cand: "map_of d k = Some cand" by blast
  let ?c = "filter_elements cand [] {}"
  have cl: "length ?c \<le> length cand" using filter_elements_length [of cand "[]" "{}"] by simp
  have cd: "distinct (map image_id ?c)" by (rule filter_elements_distinct) simp_all
  define d1 where "d1 =
     (if int (length cand) < mn then AList.delete k d
      else if length cand \<noteq> length ?c
        then (if int (length ?c) \<ge> mn then AList.update k ?c (AList.delete k d)
              else AList.delete k d)
        else d)"
  have step: "filter_loop mn (k # ks) d = filter_loop mn ks d1"
    using cand by (simp add: d1_def Let_def)
  have dist1: "distinct (map fst d1)"
    using Cons.prems(1) by (simp add: d1_def distinct_update distinct_delete)
  have other: "map_of d1 k' = map_of d k'" if "k' \<noteq> k" for k'
    using that by (simp add: d1_def update_conv' delete_conv')
  have this_k: "map_of d1 k = Some tr1 \<Longrightarrow> good_track mn tr1 \<and> length tr1 \<le> length cand" for tr1
  proof -
    assume a: "map_of d1 k = Some tr1"
    show ?thesis
    proof (cases "int (length cand) < mn")
      case True
      with a show ?thesis by (simp add: d1_def delete_conv')
    next
      case ge: False
      show ?thesis
      proof (cases "length cand = length ?c")
        case True
        then have same: "?c = cand" using filter_elements_same [of cand "[]" "{}"] by simp
        from ge same have "d1 = d" by (simp add: d1_def)
        with a cand have "tr1 = cand" by simp
        with ge cd same show ?thesis by (simp add: good_track_def)
      next
        case ne: False
        show ?thesis
        proof (cases "int (length ?c) \<ge> mn")
          case True
          with ge ne have "d1 = AList.update k ?c (AList.delete k d)" by (simp add: d1_def)
          with a have "tr1 = ?c" by (simp add: update_conv')
          with True cd cl show ?thesis by (simp add: good_track_def)
        next
          case False
          with ge ne have "d1 = AList.delete k d" by (simp add: d1_def)
          with a show ?thesis by (simp add: delete_conv')
        qed
      qed
    qed
  qed
  have sub: "set ks \<subseteq> fst ` set d1"
  proof
    fix k' assume k': "k' \<in> set ks"
    with Cons.prems have "k' \<noteq> k" "k' \<in> fst ` set d" by auto
    then have "map_of d1 k' \<noteq> None" using other [of k']
      by (simp add: map_of_eq_None_iff)
    then show "k' \<in> fst ` set d1" by (simp add: map_of_eq_None_iff)
  qed
  from Cons.prems have dks: "distinct ks" by simp
  from Cons.IH [OF dist1 dks sub] obtain d' where
    fl: "filter_loop mn ks d1 = Inr d'" and dd: "distinct (map fst d')"
    and sp: "\<forall>k tr'. map_of d' k = Some tr' \<longrightarrow>
        (\<exists>tr. map_of d1 k = Some tr \<and> length tr' \<le> length tr \<and>
              (k \<in> set ks \<longrightarrow> good_track mn tr') \<and> (k \<notin> set ks \<longrightarrow> tr' = tr))"
    by blast
  have "\<exists>tr. map_of d k' = Some tr \<and> length tr' \<le> length tr \<and>
              (k' \<in> set (k # ks) \<longrightarrow> good_track mn tr') \<and> (k' \<notin> set (k # ks) \<longrightarrow> tr' = tr)"
    if m: "map_of d' k' = Some tr'" for k' tr'
  proof -
    from sp m obtain tr1 where t1: "map_of d1 k' = Some tr1" "length tr' \<le> length tr1"
      "k' \<in> set ks \<longrightarrow> good_track mn tr'" "k' \<notin> set ks \<longrightarrow> tr' = tr1"
      by blast
    show ?thesis
    proof (cases "k' = k")
      case True
      with Cons.prems(2) have "k' \<notin> set ks" by simp
      with t1 have "tr' = tr1" by simp
      with t1 True this_k [of tr1] cand show ?thesis by simp
    next
      case False
      with t1 other [of k'] show ?thesis by auto
    qed
  qed
  with step fl dd show ?case by simp
qed

lemma group_by_member_intro:
  "k \<in> f ` set xs \<Longrightarrow> (k, map g (filter (\<lambda>i. f i = k) xs)) \<in> set (group_by f g xs [])"
  by (rule map_of_SomeD) (simp add: group_by_map_of)

lemma build_group_spec:
  "uf_inv s \<Longrightarrow> nodes s = map int [0..<length (parents s)] \<Longrightarrow>
   \<forall>i\<in>set js. i < length (parents s) \<and> i < length elems \<Longrightarrow>
   \<exists>ps'. build_group s elems js d =
           Some (Inr (s\<lparr>parents := ps'\<rparr>,
                      group_by (\<lambda>i. int (rep (parents s) (ranks s) i)) (\<lambda>i. elems ! i) js d)) \<and>
         length ps' = length (parents s) \<and> forest ps' (ranks s) \<and>
         rep ps' (ranks s) = rep (parents s) (ranks s)"
proof (induction js arbitrary: s d)
  case Nil
  have "s\<lparr>parents := parents s\<rparr> = s" by simp
  with Nil show ?case by (auto simp: group_by_def uf_inv_def intro!: exI [of _ "parents s"])
next
  case (Cons j js)
  let ?ps = "parents s" and ?rk = "ranks s"
  from Cons.prems have j: "j < length ?ps" "j < length elems" by simp_all
  from j Cons.prems(2) have nj: "nodes s ! j = int j" by simp
  from find_root_rep [OF Cons.prems(1) j(1)] nj obtain ps1 where
    fr: "find_root s (int j) = Some (Inr (s\<lparr>parents := ps1\<rparr>, rep ?ps ?rk j))"
    and l1: "length ps1 = length ?ps" and f1: "forest ps1 ?rk" and r1: "rep ps1 ?rk = rep ?ps ?rk"
    by auto
  let ?s1 = "s\<lparr>parents := ps1\<rparr>"
  have inv1: "uf_inv ?s1" using Cons.prems(1) f1 l1 by (rule uf_inv_parents)
  have n1: "nodes ?s1 = map int [0..<length (parents ?s1)]" using Cons.prems(2) l1 by simp
  have js: "\<forall>i\<in>set js. i < length (parents ?s1) \<and> i < length elems" using Cons.prems(3) l1 by simp
  from Cons.IH [OF inv1 n1 js, of "dict_append d (int (rep ?ps ?rk j)) (elems ! j)"]
  obtain ps' where
    vc: "build_group ?s1 elems js (dict_append d (int (rep ?ps ?rk j)) (elems ! j)) =
         Some (Inr (s\<lparr>parents := ps'\<rparr>,
           group_by (\<lambda>i. int (rep ?ps ?rk i)) (\<lambda>i. elems ! i) js
              (dict_append d (int (rep ?ps ?rk j)) (elems ! j))))"
    and p': "length ps' = length ?ps" "forest ps' ?rk" "rep ps' ?rk = rep ?ps ?rk"
    using l1 r1 by auto
  have "build_group s elems (j # js) d =
        Some (Inr (s\<lparr>parents := ps'\<rparr>,
           group_by (\<lambda>i. int (rep ?ps ?rk i)) (\<lambda>i. elems ! i) (j # js) d))"
    using fr vc j by (simp add: group_by_def)
  with p' show ?case by blast
qed

lemma build_tracks:
  assumes b: "build (TrackBuilder_init mn mx) elems pairs = Some (Inr b1)"
  shows "min_track_length b1 = mn \<and> max_track_length b1 = mx \<and>
         distinct (map fst (consistent_tracks b1)) \<and> consistent_tracks b1 \<noteq> [] \<and>
         (\<forall>(k, tr)\<in>set (consistent_tracks b1). int (length tr) \<le> mx)"
proof -
  let ?n = "length elems"
  let ?s0 = "uf_init ?n (Some mx)"
  let ?b0 = "TrackBuilder_init mn mx"
  have b0: "max_track_length ?b0 = mx" "consistent_tracks ?b0 = []" "min_track_length ?b0 = mn"
    by (simp_all add: TrackBuilder_init_def)
  from b obtain r1 where u0: "union_all ?s0 pairs = Some r1"
    by (cases "union_all ?s0 pairs") (simp_all add: build_def b0)
  with b obtain s1 where u: "union_all ?s0 pairs = Some (Inr s1)"
    by (cases r1) (simp_all add: build_def b0)
  from b u obtain r2 where v0: "validate s1 = Some r2"
    by (cases "validate s1") (simp_all add: build_def b0)
  with b u obtain s2 where v: "validate s1 = Some (Inr s2)"
    by (cases r2) (simp_all add: build_def b0)
  from b u v obtain r3 where g0: "build_group s2 elems [0..<?n] [] = Some r3"
    by (cases "build_group s2 elems [0..<?n] []") (simp_all add: build_def b0)
  with b u v obtain s3 tracks where g: "build_group s2 elems [0..<?n] [] = Some (Inr (s3, tracks))"
    by (cases r3) (auto simp: build_def b0)
  from b u v g have b1: "b1 = ?b0\<lparr>consistent_tracks := tracks\<rparr>" and ne: "tracks \<noteq> []"
    by (auto simp: build_def b0 mean_track_length_def split: if_splits)
  have i0: "length (parents ?s0) = ?n" "nodes ?s0 = map int [0..<?n]"
    "max_num_per_set ?s0 = Some mx"
    by (simp_all add: uf_init_def)
  from union_all_Inr_inv [OF uf_inv_init sizes_ok_init u] i0
  have inv1: "uf_inv s1" and k1: "length (parents s1) = ?n" "nodes s1 = map int [0..<?n]"
    "max_num_per_set s1 = Some mx"
    by simp_all
  let ?rep = "rep (parents s1) (ranks s1)"
  let ?G = "group_by ?rep (\<lambda>i. nodes s1 ! i) [0..<?n] []"
  from validate_result [OF inv1] k1 obtain ps2 where
    vc: "validate_collect s1 (nodes s1) [] = Some (Inr (s1\<lparr>parents := ps2\<rparr>, ?G))"
    and p2: "length ps2 = ?n" "forest ps2 (ranks s1)" "rep ps2 (ranks s1) = ?rep"
    by auto
  from v vc k1 have s2: "s2 = s1\<lparr>parents := ps2\<rparr>" and chk: "validate_check (Some mx) ?G = None"
    by (auto simp: validate_def split: option.splits)
  have inv2: "uf_inv s2" using inv1 p2 k1 s2 by (simp add: uf_inv_parents)
  have n2: "nodes s2 = map int [0..<length (parents s2)]" using s2 k1 p2 by simp
  have "\<forall>i\<in>set [0..<?n]. i < length (parents s2) \<and> i < length elems" using s2 p2 by simp
  from build_group_spec [OF inv2 n2 this, of "[]"] g s2 p2
  have tr: "tracks = group_by (\<lambda>i. int (?rep i)) (\<lambda>i. elems ! i) [0..<?n] []"
    by auto
  have "int (length t) \<le> mx" if "(k, t) \<in> set tracks" for k t
  proof -
    from that tr have "k \<in> (\<lambda>i. int (?rep i)) ` set [0..<?n]"
      and t: "t = map (\<lambda>i. elems ! i) (filter (\<lambda>i. int (?rep i) = k) [0..<?n])"
      using group_by_members by fastforce+
    then obtain j where j: "j < ?n" "k = int (?rep j)" by auto
    then have "?rep j \<in> ?rep ` set [0..<?n]" by simp
    then have "(?rep j, map (\<lambda>i. nodes s1 ! i) (filter (\<lambda>i. ?rep i = ?rep j) [0..<?n])) \<in> set ?G"
      by (rule group_by_member_intro)
    from validate_check_Some [OF chk this] t j show ?thesis by simp
  qed
  moreover have "distinct (map fst tracks)" unfolding tr by (rule group_by_distinct) simp
  ultimately show ?thesis using b1 ne b0 by auto
qed

text \<open>
  On a freshly constructed \<open>TrackBuilder(mn, mx)\<close> the cap of the union-find
  bounds the tracks: whenever \<open>build\<close> returns, the loop of \<open>filter\<close> raises
  nothing and leaves only tracks with pairwise distinct image ids and between
  \<open>mn\<close> and \<open>mx\<close> elements; \<open>filter\<close> returns that state, unless no track is left
  and its final \<open>print\<close> of the mean track length divides by zero.
\<close>

lemma fresh_build_filter_invariant:
  assumes b: "build (TrackBuilder_init mn mx) elems pairs = Some (Inr b1)"
  shows "\<exists>d. filter_loop (min_track_length b1) (map fst (consistent_tracks b1)) (consistent_tracks b1) = Inr d \<and>
             (\<forall>(k, tr)\<in>set d. distinct (map image_id tr) \<and> mn \<le> int (length tr) \<and> int (length tr) \<le> mx) \<and>
             filter_tracks b1 = (if d = [] then Inl ZeroDivisionError else Inr (b1\<lparr>consistent_tracks := d\<rparr>))"
proof -
  let ?d0 = "consistent_tracks b1"
  from build_tracks [OF b] have mn: "min_track_length b1 = mn" and d0: "distinct (map fst ?d0)"
    and le: "\<forall>(k, tr)\<in>set ?d0. int (length tr) \<le> mx"
    by simp_all
  have "set (map fst ?d0) \<subseteq> fst ` set ?d0" by simp
  from filter_loop_spec [OF d0 d0 this, of mn] obtain d where
    fl: "filter_loop mn (map fst ?d0) ?d0 = Inr d" and dd: "distinct (map fst d)"
    and sp: "\<forall>k tr'. map_of d k = Some tr' \<longrightarrow>
        (\<exists>tr. map_of ?d0 k = Some tr \<and> length tr' \<le> length tr \<and>
              (k \<in> set (map fst ?d0) \<longrightarrow> good_track mn tr') \<and> (k \<notin> set (map fst ?d0) \<longrightarrow> tr' = tr))"
    by blast
  have "distinct (map image_id t) \<and> mn \<le> int (length t) \<and> int (length t) \<le> mx"
    if "(k, t) \<in> set d" for k t
  proof -
    from that dd have "map_of d k = Some t" by simp
    with sp obtain t0 where t0: "map_of ?d0 k = Some t0" "length t \<le> length t0"
      "k \<in> set (map fst ?d0) \<longrightarrow> good_track mn t"
      by blast
    from t0(1) have in0: "(k, t0) \<in> set ?d0" by (rule map_of_SomeD)
    then have "k \<in> set (map fst ?d0)" by force
    with t0 have "good_track mn t" by simp
    moreover from in0 le have "int (length t0) \<le> mx" by auto
    ultimately show ?thesis using t0(2) by (simp add: good_track_def)
  qed
  moreover have "filter_tracks b1 = (if d = [] then Inl ZeroDivisionError else Inr (b1\<lparr>consistent_tracks := d\<rparr>))"
    using fl mn by (simp add: filter_tracks_def mean_track_length_def)
  ultimately show ?thesis using fl mn by auto
qed

text \<open>
  Claim C3.  The bounds are broken on a builder that already holds tracks:
  \<open>build\<close> appends to the tracks it finds (lines 94 to 96) and \<open>filter\<close> tests
  only the lower bound, although its comment (lines 110 and 111) says that a
  track longer than \<open>max_track_length\<close> is to be discarded.  With
  \<open>TrackBuilder(2, 2)\<close>, two calls of \<open>build\<close>, each on two elements joined by one
  pair, leave one track of four elements in four different images, and
  \<open>filter\<close> keeps it.
\<close>

theorem filter_keeps_long_track:
  "build (TrackBuilder_init 2 2)
     [\<lparr>image_id = 0, point2D_idx = 5\<rparr>, \<lparr>image_id = 1, point2D_idx = 7\<rparr>] [(0, 1)] =
   Some (Inr \<lparr>min_track_length = 2, max_track_length = 2,
     consistent_tracks = [(0, [\<lparr>image_id = 0, point2D_idx = 5\<rparr>, \<lparr>image_id = 1, point2D_idx = 7\<rparr>])]\<rparr>) \<and>
   build \<lparr>min_track_length = 2, max_track_length = 2,
     consistent_tracks = [(0, [\<lparr>image_id = 0, point2D_idx = 5\<rparr>, \<lparr>image_id = 1, point2D_idx = 7\<rparr>])]\<rparr>
     [\<lparr>image_id = 2, point2D_idx = 1\<rparr>, \<lparr>image_id = 3, point2D_idx = 4\<rparr>] [(0, 1)] =
   Some (Inr \<lparr>min_track_length = 2, max_track_length = 2,
     consistent_tracks = [(0, [\<lparr>image_id = 0, point2D_idx = 5\<rparr>, \<lparr>image_id = 1, point2D_idx = 7\<rparr>,
        \<lparr>image_id = 2, point2D_idx = 1\<rparr>, \<lparr>image_id = 3, point2D_idx = 4\<rparr>])]\<rparr>) \<and>
   filter_tracks \<lparr>min_track_length = 2, max_track_length = 2,
     consistent_tracks = [(0, [\<lparr>image_id = 0, point2D_idx = 5\<rparr>, \<lparr>image_id = 1, point2D_idx = 7\<rparr>,
        \<lparr>image_id = 2, point2D_idx = 1\<rparr>, \<lparr>image_id = 3, point2D_idx = 4\<rparr>])]\<rparr> =
   Inr \<lparr>min_track_length = 2, max_track_length = 2,
     consistent_tracks = [(0, [\<lparr>image_id = 0, point2D_idx = 5\<rparr>, \<lparr>image_id = 1, point2D_idx = 7\<rparr>,
        \<lparr>image_id = 2, point2D_idx = 1\<rparr>, \<lparr>image_id = 3, point2D_idx = 4\<rparr>])]\<rparr> \<and>
   \<not> int (length [\<lparr>image_id = 0, point2D_idx = 5\<rparr>, \<lparr>image_id = 1, point2D_idx = 7\<rparr>,
        \<lparr>image_id = 2, point2D_idx = 1\<rparr>, \<lparr>image_id = 3, point2D_idx = 4\<rparr>]) \<le> 2"
  by (simp add: build_def TrackBuilder_init_def uf_init_def find_root.simps uf_union_def
      union_roots_def merge_roots_def validate_def dict_append_def mean_track_length_def
      filter_tracks_def upt_rec)

lemma of_char_digit_char: "d < 10 \<Longrightarrow> (of_char (digit_char d) :: nat) = 48 + d"
  by (simp add: digit_char_def)

lemma is_digit_digit_char: "d < 10 \<Longrightarrow> is_digit (digit_char d)"
  by (simp add: is_digit_def of_char_digit_char)

lemma digit_val_digit_char: "d < 10 \<Longrightarrow> digit_val (digit_char d) = d"
  by (simp add: digit_val_def of_char_digit_char)

lemma is_digit_not_special:
  "is_digit c \<Longrightarrow> \<not> is_space c \<and> c \<noteq> space \<and> c \<noteq> newline \<and> c \<noteq> carriage_return \<and>
     c \<noteq> CHR ''-'' \<and> c \<noteq> CHR ''+''"
  by (auto simp: is_digit_def is_space_def space_def newline_def carriage_return_def)

lemma str_nat_digits: "\<forall>c\<in>set (str_nat n). is_digit c"
proof (induction n rule: str_nat.induct)
  case (1 n)
  show ?case
  proof (cases "n < 10")
    case True
    then show ?thesis by (subst str_nat.simps) (simp add: is_digit_digit_char)
  next
    case False
    with 1 show ?thesis by (subst str_nat.simps) (simp add: is_digit_digit_char)
  qed
qed

lemma str_nat_nonempty: "str_nat n \<noteq> []"
  by (subst str_nat.simps) simp

lemma digits_value_append:
  "\<forall>c\<in>set xs. is_digit c \<Longrightarrow> digits_value (xs @ ys) acc = digits_value ys (digits_fold acc xs)"
  by (induction xs arbitrary: acc) (simp_all add: digits_fold_def)

lemma digits_fold_str_nat: "digits_fold 0 (str_nat n) = n"
proof (induction n rule: str_nat.induct)
  case (1 n)
  show ?case
  proof (cases "n < 10")
    case True
    then show ?thesis by (subst str_nat.simps) (simp add: digits_fold_def digit_val_digit_char)
  next
    case False
    with 1 have "digits_fold 0 (str_nat (n div 10)) = n div 10" by simp
    with False show ?thesis
      by (subst str_nat.simps) (simp add: digits_fold_def digit_val_digit_char)
  qed
qed

lemma digits_value_str_nat: "digits_value (str_nat n) 0 = Some n"
  using digits_value_append [OF str_nat_digits, of n "[]" 0] by (simp add: digits_fold_str_nat)

lemma strip_id: "s \<noteq> [] \<Longrightarrow> \<not> is_space (hd s) \<Longrightarrow> \<not> is_space (last s) \<Longrightarrow> strip s = s"
proof -
  assume s: "s \<noteq> []" and h: "\<not> is_space (hd s)" and l: "\<not> is_space (last s)"
  from s h have a: "dropWhile is_space s = s" by (cases s) simp_all
  from s l have "\<not> is_space (hd (rev s))" by (simp add: hd_rev)
  with s have "dropWhile is_space (rev s) = rev s" by (cases "rev s") simp_all
  with a show ?thesis by (simp add: strip_def)
qed

lemma str_nat_hd_last: "is_digit (hd (str_nat n)) \<and> is_digit (last (str_nat n))"
  using str_nat_digits [of n] str_nat_nonempty [of n] by simp

lemma not_space_minus: "\<not> is_space (CHR ''-'')"
  by (simp add: is_space_def)

lemma not_digit_minus: "\<not> is_digit (CHR ''-'')"
  by (simp add: is_digit_def)

lemma not_space_digit: "is_digit c \<Longrightarrow> \<not> is_space c"
  by (simp add: is_digit_not_special)

lemma py_int_str_int: "py_int (str_int i) = Inr i"
proof (cases "i < 0")
  case True
  let ?ds = "str_nat (nat (- i))"
  have d: "is_digit (hd ?ds)" "is_digit (last ?ds)" "?ds \<noteq> []"
    using str_nat_hd_last [of "nat (- i)"] str_nat_nonempty [of "nat (- i)"] by simp_all
  have "\<not> is_space (last (CHR ''-'' # ?ds))" using d by (simp add: not_space_digit)
  then have st: "strip (CHR ''-'' # ?ds) = CHR ''-'' # ?ds"
    by (intro strip_id) (simp_all add: not_space_minus)
  have "py_int (CHR ''-'' # ?ds) = Inr (- int (nat (- i)))"
    using d by (simp add: py_int_def st digits_value_str_nat Let_def)
  with True show ?thesis by (simp add: str_int_def)
next
  case False
  let ?ds = "str_nat (nat i)"
  have d: "is_digit (hd ?ds)" "is_digit (last ?ds)" "?ds \<noteq> []"
    using str_nat_hd_last [of "nat i"] str_nat_nonempty [of "nat i"] by simp_all
  have st: "strip ?ds = ?ds" using d by (intro strip_id) (simp_all add: not_space_digit)
  have h: "hd ?ds \<noteq> CHR ''-''" "hd ?ds \<noteq> CHR ''+''"
    using d(1) is_digit_not_special [of "hd ?ds"] by simp_all
  have "py_int ?ds = Inr (int (nat i))"
    using d h by (simp add: py_int_def st digits_value_str_nat Let_def)
  with False show ?thesis by (simp add: str_int_def)
qed

lemma str_int_chars:
  "space \<notin> set (str_int i) \<and> newline \<notin> set (str_int i) \<and> carriage_return \<notin> set (str_int i)"
proof -
  have m: "CHR ''-'' \<noteq> space" "CHR ''-'' \<noteq> newline" "CHR ''-'' \<noteq> carriage_return"
    by (simp_all add: space_def newline_def carriage_return_def)
  have "c \<noteq> space \<and> c \<noteq> newline \<and> c \<noteq> carriage_return" if "c \<in> set (str_int i)" for c
  proof (cases "c = CHR ''-''")
    case True
    with m show ?thesis by simp
  next
    case False
    with that have "c \<in> set (str_nat (nat (- i))) \<or> c \<in> set (str_nat (nat i))"
      by (simp add: str_int_def split: if_splits)
    then have "is_digit c" using str_nat_digits by blast
    then show ?thesis by (simp add: is_digit_not_special)
  qed
  then show ?thesis by blast
qed

lemma file_lines_line:
  "newline \<notin> set l \<Longrightarrow> carriage_return \<notin> set l \<Longrightarrow>
   file_lines (l @ newline # rest) = (l @ [newline]) # file_lines rest"
proof (induction l)
  case Nil
  show ?case by (cases rest) simp_all
next
  case (Cons c l)
  obtain c2 cs where t: "l @ newline # rest = c2 # cs" by (cases "l @ newline # rest") simp_all
  from Cons.prems have c: "c \<noteq> newline" "c \<noteq> carriage_return" by auto
  from Cons have "file_lines (c2 # cs) = (l @ [newline]) # file_lines rest" by (simp add: t)
  with c have "file_lines (c # c2 # cs) = (c # l @ [newline]) # file_lines rest" by simp
  with t show ?case by simp
qed

lemma rstrip_newline_line: "newline \<notin> set l \<Longrightarrow> rstrip_newline (l @ [newline]) = l"
proof -
  assume n: "newline \<notin> set l"
  have "dropWhile (\<lambda>c. c = newline) (rev l) = rev l"
  proof (cases "rev l")
    case Nil
    then show ?thesis by simp
  next
    case (Cons a as)
    then have "a \<in> set l" by (metis list.set_intros(1) set_rev)
    with n have "a \<noteq> newline" by auto
    with Cons show ?thesis by simp
  qed
  then show ?thesis by (simp add: rstrip_newline_def)
qed

lemma split_space_word: "space \<notin> set a \<Longrightarrow> split_space a = [a]"
  by (induction a) auto

lemma split_space_cons: "space \<notin> set a \<Longrightarrow> split_space (a @ space # b) = a # split_space b"
  by (induction a) auto

lemma split_space_data: "split_space (data_text tr) = data_tokens tr @ [[]]"
proof (induction tr)
  case Nil
  show ?case by (simp add: data_text_def data_tokens_def)
next
  case (Cons t tr)
  have "data_text (t # tr) =
        str_int (image_id t) @ space # (str_int (point2D_idx t) @ space # data_text tr)"
    by (simp add: data_text_def)
  then have "split_space (data_text (t # tr)) =
        str_int (image_id t) # str_int (point2D_idx t) # split_space (data_text tr)"
    by (simp add: split_space_cons str_int_chars)
  with Cons show ?case by (simp add: data_tokens_def)
qed

lemma data_text_chars: "newline \<notin> set (data_text tr) \<and> carriage_return \<notin> set (data_text tr)"
proof (induction tr)
  case Nil
  show ?case by (simp add: data_text_def)
next
  case (Cons t tr)
  have "data_text (t # tr) =
        str_int (image_id t) @ space # (str_int (point2D_idx t) @ space # data_text tr)"
    by (simp add: data_text_def)
  moreover have "space \<noteq> newline" "space \<noteq> carriage_return"
    by (simp_all add: space_def newline_def carriage_return_def)
  ultimately show ?case using Cons str_int_chars [of "image_id t"] str_int_chars [of "point2D_idx t"]
    by auto
qed

lemma length_data_tokens: "length (data_tokens tr) = 2 * length tr"
  by (induction tr) (simp_all add: data_tokens_def)

lemma track_element_eta: "\<lparr>image_id = image_id t, point2D_idx = point2D_idx t\<rparr> = (t :: TrackElement)"
  by simp

lemma read_elements_tokens:
  "map_of tracks k = Some vs \<Longrightarrow>
   read_elements (data_tokens pre @ data_tokens tr @ [[]]) None k
     [length pre..<length pre + length tr] tracks =
   Inr (AList.update k (vs @ tr) tracks)"
proof (induction tr arbitrary: pre vs tracks)
  case Nil
  then show ?case by (simp add: update_triv)
next
  case (Cons t tr)
  let ?line = "data_tokens pre @ data_tokens (t # tr) @ [[]]"
  let ?i = "length pre"
  have upt: "[?i..<?i + length (t # tr)] = ?i # [length (pre @ [t])..<length (pre @ [t]) + length tr]"
    using upt_conv_Cons [of ?i "?i + length (t # tr)"] by (simp del: upt_Suc)
  have tok: "?line = data_tokens (pre @ [t]) @ data_tokens tr @ [[]]"
    by (simp add: data_tokens_def)
  have len: "\<not> length ?line \<le> 2 * ?i + 0" "\<not> length ?line \<le> 2 * ?i + 1"
    by (simp_all add: length_data_tokens)
  have dt: "data_tokens (t # tr) =
      str_int (image_id t) # str_int (point2D_idx t) # data_tokens tr"
    by (simp add: data_tokens_def)
  have n0: "?line ! (2 * ?i + 0) = str_int (image_id t)"
    by (simp add: dt nth_append length_data_tokens)
  have n1: "?line ! (2 * ?i + 1) = str_int (point2D_idx t)"
    by (simp add: dt nth_append length_data_tokens)
  let ?tracks1 = "AList.update k (vs @ [t]) tracks"
  have m1: "map_of ?tracks1 k = Some (vs @ [t])" by (simp add: update_conv')
  have "read_elements ?line None k [?i..<?i + length (t # tr)] tracks =
        read_elements ?line None k [length (pre @ [t])..<length (pre @ [t]) + length tr] ?tracks1"
    unfolding upt using len n0 n1 Cons.prems
    by (simp add: py_int_str_int track_element_eta del: upt_Suc)
  also have "\<dots> = Inr (AList.update k ((vs @ [t]) @ tr) ?tracks1)"
    unfolding tok by (rule Cons.IH [OF m1])
  finally show ?case by simp
qed

lemma header_text_chars:
  "newline \<notin> set (header_text kt) \<and> carriage_return \<notin> set (header_text kt)"
  using str_int_chars [of "fst kt"] str_int_chars [of "int (length (snd kt))"]
  by (simp add: header_text_def space_def newline_def carriage_return_def)

lemma write_track_text:
  "write_track kt = header_text kt @ newline # (data_text (snd kt) @ newline # [])"
  by (cases kt) (simp add: write_track_def header_text_def data_text_def)

lemma file_lines_tracks: "file_lines (concat (map write_track ts)) = track_lines ts"
proof (induction ts)
  case Nil
  show ?case by (simp add: track_lines_def)
next
  case (Cons kt ts)
  let ?rest = "concat (map write_track ts)"
  have "concat (map write_track (kt # ts)) =
        header_text kt @ newline # (data_text (snd kt) @ newline # ?rest)"
    by (simp add: write_track_text)
  then have "file_lines (concat (map write_track (kt # ts))) =
        (header_text kt @ [newline]) # (data_text (snd kt) @ [newline]) # file_lines ?rest"
    by (simp add: file_lines_line header_text_chars data_text_chars)
  with Cons show ?case by (simp add: track_lines_def)
qed

lemma split_space_header:
  "split_space (rstrip_newline (header_text kt @ [newline])) =
     [str_int (fst kt), str_int (int (length (snd kt)))]"
proof -
  have "rstrip_newline (header_text kt @ [newline]) = header_text kt"
    by (simp add: rstrip_newline_line header_text_chars)
  moreover have "header_text kt = str_int (fst kt) @ space # str_int (int (length (snd kt)))"
    by (simp add: header_text_def)
  ultimately show ?thesis by (simp add: split_space_cons split_space_word str_int_chars)
qed

lemma read_track_written:
  "read_track [str_int k, str_int (int (length tr))] (data_text tr @ [newline]) None tracks =
     Inr (AList.update k tr tracks)"
proof -
  have "split_space (rstrip_newline (data_text tr @ [newline])) = data_tokens [] @ data_tokens tr @ [[]]"
    by (simp add: rstrip_newline_line data_text_chars split_space_data data_tokens_def)
  moreover have "map_of (AList.update k [] tracks) k = Some []" by (simp add: update_conv')
  from read_elements_tokens [OF this, of "[]" tr]
  have "read_elements (data_tokens [] @ data_tokens tr @ [[]]) None k [0..<length tr]
          (AList.update k [] tracks) = Inr (AList.update k tr tracks)"
    by simp
  ultimately show ?thesis by (simp add: read_track_def py_int_str_int)
qed

lemma read_loop_written:
  "read_loop (track_lines ts) None tracks = Inr (fold (\<lambda>kt d. AList.update (fst kt) (snd kt) d) ts tracks)"
proof (induction ts arbitrary: tracks)
  case Nil
  show ?case by (simp add: track_lines_def)
next
  case (Cons kt ts)
  have "track_lines (kt # ts) =
        (header_text kt @ [newline]) # (data_text (snd kt) @ [newline]) # track_lines ts"
    by (simp add: track_lines_def)
  then show ?case
    by (simp add: split_space_header read_track_written Cons.IH del: split_space.simps)
qed

lemma update_fresh: "k \<notin> fst ` set d \<Longrightarrow> AList.update k v d = d @ [(k, v)]"
  by (induction d) auto

lemma fold_update_distinct:
  "distinct (map fst (d @ ts)) \<Longrightarrow>
   fold (\<lambda>kt d. AList.update (fst kt) (snd kt) d) ts d = d @ ts"
proof (induction ts arbitrary: d)
  case Nil
  show ?case by simp
next
  case (Cons kt ts)
  from Cons.prems have "fst kt \<notin> fst ` set d" by auto
  then have "AList.update (fst kt) (snd kt) d = d @ [kt]" by (simp add: update_fresh)
  moreover from Cons.prems have "distinct (map fst ((d @ [kt]) @ ts))" by simp
  ultimately show ?case using Cons.IH [of "d @ [kt]"] by simp
qed

text \<open>
  Claim C7.  For every \<open>TrackBuilder\<close> (its \<open>consistent_tracks\<close> is a dict, so the
  keys are pairwise distinct), \<open>read_from_file\<close> with \<open>image_ids=None\<close> on a fresh
  \<open>TrackBuilder\<close>, applied to what \<open>write_to_file\<close> wrote, returns without exception
  and gives the same dict: the same root ids in the same order, each with the
  same list of track elements.
\<close>

theorem write_read_round_trip:
  assumes "distinct (map fst (consistent_tracks b))"
  shows "read_from_file (TrackBuilder_init mn mx) (write_to_file b) None =
         Inr ((TrackBuilder_init mn mx)\<lparr>consistent_tracks := consistent_tracks b\<rparr>)"
proof -
  have "read_loop (file_lines (write_to_file b)) None [] = Inr (consistent_tracks b)"
    using fold_update_distinct [of "[]" "consistent_tracks b"] assms
    by (simp add: write_to_file_def file_lines_tracks read_loop_written)
  then show ?thesis by (simp add: read_from_file_def TrackBuilder_init_def)
qed

text \<open>Claim C7, witness: two tracks, one of them with a negative point index.\<close>

theorem write_read_round_trip_witness:
  "read_from_file (TrackBuilder_init 3 40)
     (write_to_file \<lparr>min_track_length = 2, max_track_length = 40,
        consistent_tracks =
          [(4, [\<lparr>image_id = 0, point2D_idx = 15\<rparr>, \<lparr>image_id = 12, point2D_idx = 7\<rparr>]),
           (0, [\<lparr>image_id = 3, point2D_idx = - 1\<rparr>, \<lparr>image_id = 1, point2D_idx = 102\<rparr>])]\<rparr>)
     None =
   Inr ((TrackBuilder_init 3 40)\<lparr>consistent_tracks :=
          [(4, [\<lparr>image_id = 0, point2D_idx = 15\<rparr>, \<lparr>image_id = 12, point2D_idx = 7\<rparr>]),
           (0, [\<lparr>image_id = 3, point2D_idx = - 1\<rparr>, \<lparr>image_id = 1, point2D_idx = 102\<rparr>])]\<rparr>)"
  using write_read_round_trip [of "\<lparr>min_track_length = 2, max_track_length = 40,
        consistent_tracks =
          [(4, [\<lparr>image_id = 0, point2D_idx = 15\<rparr>, \<lparr>image_id = 12, point2D_idx = 7\<rparr>]),
           (0, [\<lparr>image_id = 3, point2D_idx = - 1\<rparr>, \<lparr>image_id = 1, point2D_idx = 102\<rparr>])]\<rparr>" 3 40]
  by simp

lemma read_data_line:
  "split_space (rstrip_newline (data_text tr @ [newline])) = data_tokens tr @ [[]]"
  by (simp add: rstrip_newline_line data_text_chars split_space_data)

lemma file_lines_written: "file_lines (write_to_file b) = track_lines (consistent_tracks b)"
  by (simp only: write_to_file_def file_lines_tracks)

lemma written_file_example: "write_to_file \<lparr>min_track_length = 3, max_track_length = 40,
        consistent_tracks =
          [(7, [\<lparr>image_id = 0, point2D_idx = 5\<rparr>, \<lparr>image_id = 1, point2D_idx = 7\<rparr>,
                \<lparr>image_id = 2, point2D_idx = 9\<rparr>])]\<rparr> =
     ''7 3'' @ [newline] @ ''0 5 1 7 2 9 '' @ [newline]"
  by code_simp

text \<open>
  Claim C10.  The builder below holds one track of three elements in three
  images and \<open>min_track_length\<close> is 3, so \<open>filter\<close> leaves it as it is.  Reading the
  file written from it with the allow-list \<open>[1]\<close> leaves the track with one element,
  and with the allow-list \<open>[4]\<close> with none: the key is inserted before the elements
  are looked at, and nothing tests the length.
\<close>

theorem read_from_file_keeps_short_tracks:
  "filter_tracks \<lparr>min_track_length = 3, max_track_length = 40,
        consistent_tracks =
          [(7, [\<lparr>image_id = 0, point2D_idx = 5\<rparr>, \<lparr>image_id = 1, point2D_idx = 7\<rparr>,
                \<lparr>image_id = 2, point2D_idx = 9\<rparr>])]\<rparr> =
   Inr \<lparr>min_track_length = 3, max_track_length = 40,
        consistent_tracks =
          [(7, [\<lparr>image_id = 0, point2D_idx = 5\<rparr>, \<lparr>image_id = 1, point2D_idx = 7\<rparr>,
                \<lparr>image_id = 2, point2D_idx = 9\<rparr>])]\<rparr> \<and>
   read_from_file (TrackBuilder_init 3 40)
     (write_to_file \<lparr>min_track_length = 3, max_track_length = 40,
        consistent_tracks =
          [(7, [\<lparr>image_id = 0, point2D_idx = 5\<rparr>, \<lparr>image_id = 1, point2D_idx = 7\<rparr>,
                \<lparr>image_id = 2, point2D_idx = 9\<rparr>])]\<rparr>)
     (Some [1]) =
   Inr \<lparr>min_track_length = 3, max_track_length = 40,
        consistent_tracks = [(7, [\<lparr>image_id = 1, point2D_idx = 7\<rparr>])]\<rparr> \<and>
   read_from_file (TrackBuilder_init 3 40)
     (write_to_file \<lparr>min_track_length = 3, max_track_length = 40,
        consistent_tracks =
          [(7, [\<lparr>image_id = 0, point2D_idx = 5\<rparr>, \<lparr>image_id = 1, point2D_idx = 7\<rparr>,
                \<lparr>image_id = 2, point2D_idx = 9\<rparr>])]\<rparr>)
     (Some [4]) =
   Inr \<lparr>min_track_length = 3, max_track_length = 40, consistent_tracks = [(7, [])]\<rparr> \<and>
   int (length [\<lparr>image_id = 1, point2D_idx = 7\<rparr>]) < 3 \<and> int (length ([] :: TrackElement list)) < 3"
  by (simp add: filter_tracks_def mean_track_length_def read_from_file_def
      file_lines_written track_lines_def split_space_header read_data_line data_tokens_def
      read_track_def py_int_str_int TrackBuilder_init_def upt_rec del: split_space.simps)

end
